theory Spec2Isabelle
  imports Main
begin

section \<open>Values: the nested dictionaries built by \<^verbatim>\<open>eveapi.py\<close>\<close>

text \<open>
  The converter of \<^verbatim>\<open>eveapi.py\<close> produces Python dictionaries whose values are
  either unicode strings or further dictionaries. A dictionary is modelled as an
  association list in insertion order whose keys are pairwise distinct (\<open>wf_val\<close>);
  \<open>d[k] = v\<close> overwrites the entry of an existing key where it stands and appends a new
  key at the end (\<open>dict_set\<close>), \<open>d.get(k)\<close> is \<open>map_of\<close>.
  Characters are the 8-bit characters of HOL.
\<close>

datatype error = IndexError | KeyError string | TypeError | AttributeError | RuntimeError

datatype val = Str string | Dict "(string \<times> val) list"

fun dict_set :: "('k \<times> 'v) list \<Rightarrow> 'k \<Rightarrow> 'v \<Rightarrow> ('k \<times> 'v) list" where
  "dict_set [] k v = [(k, v)]"
| "dict_set ((k', v') # d) k v =
     (if k' = k then (k', v) # d else (k', v') # dict_set d k v)"

fun wf_val :: "val \<Rightarrow> bool" where
  "wf_val (Str s) = True"
| "wf_val (Dict d) = (distinct (map fst d) \<and> (\<forall>v \<in> snd ` set d. wf_val v))"

text \<open>\<^verbatim>\<open>d.get(k, default)\<close>.\<close>

definition dict_get :: "('k \<times> 'v) list \<Rightarrow> 'k \<Rightarrow> 'v \<Rightarrow> 'v" where
  "dict_get d k dflt = (case map_of d k of None \<Rightarrow> dflt | Some x \<Rightarrow> x)"

text \<open>Following a key path through nested dictionaries (\<open>d[k1][k2]...[kn]\<close>).\<close>

fun follow :: "string list \<Rightarrow> val \<Rightarrow> val option" where
  "follow [] v = Some v"
| "follow (k # ks) (Str s) = None"
| "follow (k # ks) (Dict d) =
     (case map_of d k of None \<Rightarrow> None | Some v \<Rightarrow> follow ks v)"

section \<open>\<^verbatim>\<open>_dict_with_path\<close>\<close>

text \<open>
  \<^verbatim>\<open>last_element = path.pop()\<close> raises \<^verbatim>\<open>IndexError\<close> on the empty list; the loop
  \<^verbatim>\<open>for element in path: d[element] = dict(); d = d[element]\<close> runs over the remaining
  segments and \<^verbatim>\<open>d[last_element] = value\<close> fills the innermost dictionary.
\<close>

fun dict_with_path_loop :: "string list \<Rightarrow> string \<Rightarrow> val \<Rightarrow> val" where
  "dict_with_path_loop [] last_element v = Dict [(last_element, v)]"
| "dict_with_path_loop (element # path) last_element v =
     Dict [(element, dict_with_path_loop path last_element v)]"

definition dict_with_path :: "string list \<Rightarrow> val \<Rightarrow> error + val" where
  "dict_with_path path v =
     (if path = [] then Inl IndexError
      else Inr (dict_with_path_loop (butlast path) (last path) v))"

section \<open>\<^verbatim>\<open>_dict_update\<close>\<close>

text \<open>
  \<^verbatim>\<open>for k, v in dict2.iteritems()\<close>: when \<open>v\<close> is a dictionary the function calls itself on
  \<^verbatim>\<open>dict1.get(k, {})\<close> and stores the result at \<open>k\<close>; otherwise it stores \<open>dict2[k]\<close>.
  Neither branch checks that \<open>dict1\<close> is a dictionary: on a string, \<^verbatim>\<open>dict1.get\<close> raises
  \<^verbatim>\<open>AttributeError\<close> and \<^verbatim>\<open>dict1[k] = ...\<close> raises \<^verbatim>\<open>TypeError\<close>. A string can arrive there
  through \<^verbatim>\<open>dict1.get(k, {})\<close> of the enclosing call.
\<close>

fun dict_update :: "val \<Rightarrow> val \<Rightarrow> error + val" where
  "dict_update dict1 (Str s) = Inl AttributeError"
| "dict_update dict1 (Dict []) = Inr dict1"
| "dict_update dict1 (Dict ((k, v) # dict2)) =
     (case v of
        Dict m \<Rightarrow>
          (case dict1 of
             Str s1 \<Rightarrow> Inl AttributeError
           | Dict d1 \<Rightarrow>
               (case dict_update (dict_get d1 k (Dict [])) v of
                  Inl e \<Rightarrow> Inl e
                | Inr r \<Rightarrow> dict_update (Dict (dict_set d1 k r)) (Dict dict2)))
      | Str s \<Rightarrow>
          (case dict1 of
             Str s1 \<Rightarrow> Inl TypeError
           | Dict d1 \<Rightarrow> dict_update (Dict (dict_set d1 k (Str s))) (Dict dict2)))"

section \<open>The document tree\<close>

text \<open>
  A node of \<^verbatim>\<open>xml.dom.minidom\<close>: an element with its tag name, its attributes (name and
  value, in the order of \<^verbatim>\<open>attributes.items()\<close>) and its children; a text node with its
  data; the document node with its children; \<open>Other\<close> stands for every node whose type is
  neither \<^verbatim>\<open>TEXT_NODE\<close> nor \<^verbatim>\<open>ELEMENT_NODE\<close> (comments, CDATA sections, processing
  instructions, the document type).
\<close>

datatype node =
    Element string "(string \<times> string) list" "node list"
  | Text string
  | Document "node list"
  | Other

fun childNodes :: "node \<Rightarrow> node list" where
  "childNodes (Element tagName attrs cs) = cs"
| "childNodes (Document cs) = cs"
| "childNodes (Text s) = []"
| "childNodes Other = []"

text \<open>
  \<^verbatim>\<open>unicode.strip()\<close> removes leading and trailing whitespace; among the 8-bit characters
  these are U+0009 to U+000D, U+001C to U+0020, U+0085 and U+00A0.
\<close>

definition is_space :: "char \<Rightarrow> bool" where
  "is_space c =
     (let n = (of_char c :: nat)
      in (9 \<le> n \<and> n \<le> 13) \<or> (28 \<le> n \<and> n \<le> 32) \<or> n = 133 \<or> n = 160)"

definition strip :: "string \<Rightarrow> string" where
  "strip s = rev (dropWhile is_space (rev (dropWhile is_space s)))"

text \<open>
  \<^verbatim>\<open>attributes = dict(); for k, v in child.attributes.items(): attributes[k] = v\<close>, and
  the same dictionary seen as a value of the result.
\<close>

definition attributes_of :: "(string \<times> string) list \<Rightarrow> (string \<times> string) list" where
  "attributes_of attrs = fold (\<lambda>(k, v) d. dict_set d k v) attrs []"

definition dict_val :: "(string \<times> string) list \<Rightarrow> val" where
  "dict_val d = Dict (map (\<lambda>(k, v). (k, Str v)) d)"

section \<open>\<^verbatim>\<open>_process_eveapi_rowset\<close>\<close>

fun process_eveapi_rowset_loop ::
  "node list \<Rightarrow> string list \<Rightarrow> string \<Rightarrow> val \<Rightarrow> error + val" where
  "process_eveapi_rowset_loop [] path key result = Inr result"
| "process_eveapi_rowset_loop (child # rest) path key result =
     (case child of
        Element tagName attrs cs \<Rightarrow>
          (let attributes = attributes_of attrs in
           case map_of attributes key of
             None \<Rightarrow> Inl (KeyError key)
           | Some key_value \<Rightarrow>
               (case dict_with_path (path @ [key_value]) (dict_val attributes) of
                  Inl e \<Rightarrow> Inl e
                | Inr d \<Rightarrow>
                    (case dict_update result d of
                       Inl e \<Rightarrow> Inl e
                     | Inr result' \<Rightarrow> process_eveapi_rowset_loop rest path key result')))
      | _ \<Rightarrow> process_eveapi_rowset_loop rest path key result)"

definition process_eveapi_rowset :: "node \<Rightarrow> string list \<Rightarrow> string \<Rightarrow> error + val" where
  "process_eveapi_rowset element path key =
     process_eveapi_rowset_loop (childNodes element) path key (Dict [])"

section \<open>\<^verbatim>\<open>dom_to_dict\<close>\<close>

text \<open>
  \<open>dom_to_dict_loop\<close> is the loop \<^verbatim>\<open>for child in element.childNodes\<close> with the dictionary
  \<open>result\<close> built so far. The arguments of the call of \<^verbatim>\<open>_process_eveapi_rowset\<close> are
  evaluated from left to right: \<^verbatim>\<open>child.attributes['name']\<close> first, \<^verbatim>\<open>attributes['key']\<close>
  second.
\<close>

fun dom_to_dict :: "node \<Rightarrow> string list \<Rightarrow> error + val"
  and dom_to_dict_loop :: "node list \<Rightarrow> string list \<Rightarrow> val \<Rightarrow> error + val" where
  "dom_to_dict (Element tagName attrs cs) path = dom_to_dict_loop cs path (Dict [])"
| "dom_to_dict (Document cs) path = dom_to_dict_loop cs path (Dict [])"
| "dom_to_dict (Text s) path = Inr (Dict [])"
| "dom_to_dict Other path = Inr (Dict [])"
| "dom_to_dict_loop [] path result = Inr result"
| "dom_to_dict_loop (child # rest) path result =
     (case child of
        Text data \<Rightarrow>
          (let child_data = strip data in
           if length child_data > 0 then
             (case dict_with_path (path @ [''text'']) (Str child_data) of
                Inl e \<Rightarrow> Inl e
              | Inr d \<Rightarrow>
                  (case dict_update result d of
                     Inl e \<Rightarrow> Inl e
                   | Inr result' \<Rightarrow> dom_to_dict_loop rest path result'))
           else dom_to_dict_loop rest path result)
      | Element tagName attrs cs \<Rightarrow>
          (let attributes = attributes_of attrs in
           case (if length attributes > 0 then
                   (case dict_with_path (path @ [''attributes'']) (dict_val attributes) of
                      Inl e \<Rightarrow> Inl e
                    | Inr d \<Rightarrow> dict_update result d)
                 else Inr result) of
             Inl e \<Rightarrow> Inl e
           | Inr result1 \<Rightarrow>
               (case (if tagName = ''rowset'' then
                        (case map_of attrs ''name'' of
                           None \<Rightarrow> Inl (KeyError ''name'')
                         | Some name \<Rightarrow>
                             (case map_of attributes ''key'' of
                                None \<Rightarrow> Inl (KeyError ''key'')
                              | Some key \<Rightarrow> process_eveapi_rowset child (path @ [name]) key))
                      else dom_to_dict child (path @ [tagName])) of
                  Inl e \<Rightarrow> Inl e
                | Inr sub \<Rightarrow>
                    (case dict_update result1 sub of
                       Inl e \<Rightarrow> Inl e
                     | Inr result2 \<Rightarrow> dom_to_dict_loop rest path result2)))
      | _ \<Rightarrow> dom_to_dict_loop rest path result)"


section \<open>Reference notions used in the statements\<close>

text \<open>The map \<open>{k1: {k2: {... {kn: v}}}}\<close> of a key path and a value.\<close>

definition nest :: "string list \<Rightarrow> val \<Rightarrow> val" where
  "nest path v = foldr (\<lambda>k d. Dict [(k, d)]) path v"

text \<open>
  The \<^verbatim>\<open>/server/ServerStatus\<close> response of the module's documentation, as the document
  node that \<^verbatim>\<open>xml.dom.minidom.parseString\<close> returns for it (written on one line, so without
  whitespace text nodes), the dictionary that the module's documentation shows for it, and
  the dictionary with the attributes of the root element inside the \<open>eveapi\<close> entry.
\<close>

definition server_status_doc :: node where
  "server_status_doc =
     Document
      [Element ''eveapi'' [(''version'', ''2'')]
        [Element ''currentTime'' [] [Text ''2011-08-30 22:36:14''],
         Element ''result'' []
          [Element ''serverOpen'' [] [Text ''True''],
           Element ''onlinePlayers'' [] [Text ''30356'']],
         Element ''cachedUntil'' [] [Text ''2011-08-30 22:37:24'']]]"

definition server_status_dict :: val where
  "server_status_dict =
     Dict
      [(''attributes'', Dict [(''version'', Str ''2'')]),
       (''eveapi'',
        Dict
         [(''currentTime'', Dict [(''text'', Str ''2011-08-30 22:36:14'')]),
          (''result'',
           Dict
            [(''serverOpen'', Dict [(''text'', Str ''True'')]),
             (''onlinePlayers'', Dict [(''text'', Str ''30356'')])]),
          (''cachedUntil'', Dict [(''text'', Str ''2011-08-30 22:37:24'')])])]"

definition server_status_nested :: val where
  "server_status_nested =
     Dict
      [(''eveapi'',
        Dict
         [(''attributes'', Dict [(''version'', Str ''2'')]),
          (''currentTime'', Dict [(''text'', Str ''2011-08-30 22:36:14'')]),
          (''result'',
           Dict
            [(''serverOpen'', Dict [(''text'', Str ''True'')]),
             (''onlinePlayers'', Dict [(''text'', Str ''30356'')])]),
          (''cachedUntil'', Dict [(''text'', Str ''2011-08-30 22:37:24'')])])]"

text \<open>
  \<open>lift path v\<close> is \<open>v\<close> placed under the key path, except that an empty dictionary stays
  empty: a converter that merged nothing returns \<open>{}\<close> whatever its path is.
\<close>

definition lift :: "string list \<Rightarrow> val \<Rightarrow> val" where
  "lift path v = (if v = Dict [] then Dict [] else nest path v)"

text \<open>
  Rowsets. \<open>row_dicts\<close> lists the \<open>attributes\<close> dictionaries that \<^verbatim>\<open>_process_eveapi_rowset\<close>
  builds for the element children of a rowset, in document order; the function does not
  look at the tag of a child, so every element child counts as a row. A table maps a key
  value to the attribute dictionary stored for it; \<open>table_step\<close> is the effect of one row on the
  table (the row's attributes are assigned one by one into the dictionary already stored at
  its key value, \<open>merge_attrs\<close>), and \<open>table_val\<close> is the table as a value of the result.
\<close>

fun row_dicts :: "node list \<Rightarrow> (string \<times> string) list list" where
  "row_dicts [] = []"
| "row_dicts (Element tagName attrs cs # rest) = attributes_of attrs # row_dicts rest"
| "row_dicts (_ # rest) = row_dicts rest"

definition merge_attrs :: "(string \<times> string) list \<Rightarrow> (string \<times> string) list \<Rightarrow> (string \<times> string) list" where
  "merge_attrs old new = fold (\<lambda>(k, v) d. dict_set d k v) new old"

definition table_step ::
  "string \<Rightarrow> (string \<times> string) list \<Rightarrow> (string \<times> (string \<times> string) list) list \<Rightarrow>
   (string \<times> (string \<times> string) list) list" where
  "table_step key A T =
     (case map_of A key of
        None \<Rightarrow> T
      | Some kv \<Rightarrow> dict_set T kv (merge_attrs (dict_get T kv []) A))"

definition table_val :: "(string \<times> (string \<times> string) list) list \<Rightarrow> val" where
  "table_val T = Dict (map (\<lambda>(kv, A). (kv, dict_val A)) T)"

text \<open>
  A rowset keyed by \<open>id\<close> whose first and third rows share the key value \<open>1\<close>, and the
  \<open>characters\<close> rowset of the module's documentation.
\<close>

definition duplicate_rowset :: node where
  "duplicate_rowset =
     Element ''rowset'' [(''name'', ''r''), (''key'', ''id'')]
      [Element ''row'' [(''id'', ''1''), (''x'', ''a'')] [],
       Element ''row'' [(''id'', ''2''), (''x'', ''b'')] [],
       Element ''row'' [(''id'', ''1''), (''y'', ''c'')] []]"

definition characters_rowset :: node where
  "characters_rowset =
     Element ''rowset''
      [(''name'', ''characters''), (''key'', ''characterID''),
       (''columns'', ''name,characterID,corporationName,corporationID'')]
      [Element ''row''
        [(''name'', ''fcydo''), (''characterID'', ''270095316''),
         (''corporationName'', ''Odylab Research''), (''corporationID'', ''1214825692'')] [],
       Element ''row''
        [(''name'', ''hcydo''), (''characterID'', ''499939401''),
         (''corporationName'', ''Odylab Research''), (''corporationID'', ''1214825692'')] [],
       Element ''row''
        [(''name'', ''pcydo''), (''characterID'', ''515300277''),
         (''corporationName'', ''Odylab Research''), (''corporationID'', ''1214825692'')] []]"

text \<open>
  The body of the loop of \<^verbatim>\<open>dom_to_dict\<close> for an element child, after the child's
  attributes have been merged: \<open>sub_result\<close> is the dictionary that the rowset converter or the
  recursive call returns for the child, or the error raised on the way.
\<close>

definition sub_result :: "node \<Rightarrow> string list \<Rightarrow> error + val" where
  "sub_result child path =
     (case child of
        Element tagName attrs cs \<Rightarrow>
          if tagName = ''rowset'' then
            (case map_of attrs ''name'' of
               None \<Rightarrow> Inl (KeyError ''name'')
             | Some name \<Rightarrow>
                 (case map_of (attributes_of attrs) ''key'' of
                    None \<Rightarrow> Inl (KeyError ''key'')
                  | Some key \<Rightarrow> process_eveapi_rowset child (path @ [name]) key))
          else dom_to_dict child (path @ [tagName])
      | _ \<Rightarrow> Inr (Dict []))"

text \<open>
  Invariants of the dictionary \<open>result\<close> of \<^verbatim>\<open>dom_to_dict\<close> at a path: it is empty or a chain
  of single-key dictionaries along the path (\<open>rooted\<close>), and the dictionary at the end of the
  chain holds a string at no key but \<open>text\<close> (\<open>level\<close>).
\<close>

definition rooted :: "string list \<Rightarrow> val \<Rightarrow> bool" where
  "rooted path R = (R = Dict [] \<or> (\<exists>x. R = nest path (Dict x)))"

definition level :: "(string \<times> val) list \<Rightarrow> bool" where
  "level x = (\<forall>(k, v) \<in> set x. k = ''text'' \<or> (\<exists>m. v = Dict m))"

definition result_inv :: "string list \<Rightarrow> val \<Rightarrow> bool" where
  "result_inv path R = (R = Dict [] \<or> (\<exists>x. R = nest path (Dict x) \<and> level x))"

text \<open>
  Documents without key collisions. For a set \<open>T\<close> of tag names and a set \<open>N\<close> of rowset
  names, \<open>convertible T N child\<close> says of a child met by \<^verbatim>\<open>dom_to_dict\<close>: a rowset carries
  \<open>name\<close> and \<open>key\<close>, its name is in \<open>N\<close> and each of its element children carries the key
  attribute; any other element has its tag in \<open>T\<close> and convertible children. The children of
  the rows of a rowset are not constrained: the converter never visits them.
  \<open>shaped T N\<close> describes the dictionaries built from such documents: \<open>text\<close> holds a string,
  \<open>attributes\<close> a dictionary of strings, a rowset name a table, a tag a dictionary of the same
  shape.
\<close>

fun convertible :: "string set \<Rightarrow> string set \<Rightarrow> node \<Rightarrow> bool" where
  "convertible T N (Element tagName attrs cs) =
     (if tagName = ''rowset'' then
        (case map_of attrs ''name'' of
           None \<Rightarrow> False
         | Some name \<Rightarrow>
             (case map_of (attributes_of attrs) ''key'' of
                None \<Rightarrow> False
              | Some key \<Rightarrow> name \<in> N \<and> (\<forall>A \<in> set (row_dicts cs). map_of A key \<noteq> None)))
      else tagName \<in> T \<and> (\<forall>c \<in> set cs. convertible T N c))"
| "convertible T N (Text s) = True"
| "convertible T N (Document cs) = True"
| "convertible T N Other = True"

fun shaped :: "string set \<Rightarrow> string set \<Rightarrow> val \<Rightarrow> bool" where
  "shaped T N (Str s) = False"
| "shaped T N (Dict d) =
     (\<forall>(k, v) \<in> set d.
        (k = ''text'' \<and> (\<exists>s. v = Str s)) \<or>
        (k = ''attributes'' \<and> (\<exists>A. v = dict_val A)) \<or>
        (k \<in> N \<and> (\<exists>tb. v = table_val tb)) \<or>
        (k \<in> T \<and> shaped T N v))"

definition entry_ok :: "string set \<Rightarrow> string set \<Rightarrow> string \<Rightarrow> val \<Rightarrow> bool" where
  "entry_ok T N k v =
     ((k = ''text'' \<and> (\<exists>s. v = Str s)) \<or>
      (k = ''attributes'' \<and> (\<exists>A. v = dict_val A)) \<or>
      (k \<in> N \<and> (\<exists>tb. v = table_val tb)) \<or>
      (k \<in> T \<and> shaped T N v))"

text \<open>
  A document whose rowset holds a row with a nested rowset that has neither \<open>name\<close> nor
  \<open>key\<close>; the document \<^verbatim>\<open><r>hi<text>yo</text></r>\<close>; the \<open>characters\<close> rowset inside a response.
\<close>

definition nested_rowset_doc :: node where
  "nested_rowset_doc =
     Document
      [Element ''rowset'' [(''name'', ''a''), (''key'', ''id'')]
        [Element ''row'' [(''id'', ''1'')] [Element ''rowset'' [] []]]]"

definition text_clash_doc :: node where
  "text_clash_doc = Document [Element ''r'' [] [Text ''hi'', Element ''text'' [] [Text ''yo'']]]"

definition characters_doc :: node where
  "characters_doc =
     Document [Element ''eveapi'' [(''version'', ''2'')] [Element ''result'' [] [characters_rowset]]]"

section \<open>The conversion with its path lists in a store\<close>

text \<open>
  The parameter \<open>path\<close> of \<^verbatim>\<open>dom_to_dict\<close> has the default value \<^verbatim>\<open>list()\<close>, one list object
  created when the function is defined and shared by all calls that omit the argument, and
  \<^verbatim>\<open>_dict_with_path\<close> removes the last segment from the list it is given. To follow what
  happens to that object, the lists are placed in a store: \<open>cells\<close> gives the contents of the
  list at a reference and the references below \<open>next_ref\<close> are allocated. \<open>list_concat\<close> is
  \<^verbatim>\<open>path + [...]\<close>, which allocates a new list; \<open>dict_with_path_st\<close> is \<^verbatim>\<open>_dict_with_path\<close> with its
  \<^verbatim>\<open>path.pop()\<close>; \<open>merge_path_st\<close> is the statement
  \<^verbatim>\<open>_dict_update(result, _dict_with_path(path + [k], v))\<close>; \<open>rowset_call_st\<close> is the call of the
  rowset converter with its arguments evaluated from left to right. The dictionaries stay
  values: each call builds its own.
\<close>

record store =
  cells :: "nat \<Rightarrow> string list"
  next_ref :: nat

definition list_concat :: "nat \<Rightarrow> string list \<Rightarrow> store \<Rightarrow> nat \<times> store" where
  "list_concat p xs h =
     (next_ref h,
      h\<lparr>cells := (cells h)(next_ref h := cells h p @ xs), next_ref := Suc (next_ref h)\<rparr>)"

definition dict_with_path_st :: "nat \<Rightarrow> val \<Rightarrow> store \<Rightarrow> (error + val) \<times> store" where
  "dict_with_path_st p v h =
     (if cells h p = [] then (Inl IndexError, h)
      else (Inr (dict_with_path_loop (butlast (cells h p)) (last (cells h p)) v),
            h\<lparr>cells := (cells h)(p := butlast (cells h p))\<rparr>))"

definition merge_path_st ::
  "val \<Rightarrow> nat \<Rightarrow> string \<Rightarrow> val \<Rightarrow> store \<Rightarrow> (error + val) \<times> store" where
  "merge_path_st result path k v h =
     (case list_concat path [k] h of
        (q, h1) \<Rightarrow>
          (case dict_with_path_st q v h1 of
             (Inl e, h2) \<Rightarrow> (Inl e, h2)
           | (Inr d, h2) \<Rightarrow> (dict_update result d, h2)))"

fun process_eveapi_rowset_loop_st ::
  "node list \<Rightarrow> nat \<Rightarrow> string \<Rightarrow> val \<Rightarrow> store \<Rightarrow> (error + val) \<times> store" where
  "process_eveapi_rowset_loop_st [] path key result h = (Inr result, h)"
| "process_eveapi_rowset_loop_st (child # rest) path key result h =
     (case child of
        Element tagName attrs cs \<Rightarrow>
          (let attributes = attributes_of attrs in
           case map_of attributes key of
             None \<Rightarrow> (Inl (KeyError key), h)
           | Some key_value \<Rightarrow>
               (case merge_path_st result path key_value (dict_val attributes) h of
                  (Inl e, h1) \<Rightarrow> (Inl e, h1)
                | (Inr result', h1) \<Rightarrow> process_eveapi_rowset_loop_st rest path key result' h1))
      | _ \<Rightarrow> process_eveapi_rowset_loop_st rest path key result h)"

definition process_eveapi_rowset_st ::
  "node \<Rightarrow> nat \<Rightarrow> string \<Rightarrow> store \<Rightarrow> (error + val) \<times> store" where
  "process_eveapi_rowset_st element path key h =
     process_eveapi_rowset_loop_st (childNodes element) path key (Dict []) h"

definition rowset_call_st ::
  "node \<Rightarrow> nat \<Rightarrow> (string \<times> string) list \<Rightarrow> (string \<times> string) list \<Rightarrow> store \<Rightarrow>
   (error + val) \<times> store" where
  "rowset_call_st child path attrs attributes h =
     (case map_of attrs ''name'' of
        None \<Rightarrow> (Inl (KeyError ''name''), h)
      | Some name \<Rightarrow>
          (case list_concat path [name] h of
             (q, h1) \<Rightarrow>
               (case map_of attributes ''key'' of
                  None \<Rightarrow> (Inl (KeyError ''key''), h1)
                | Some key \<Rightarrow> process_eveapi_rowset_st child q key h1)))"

fun dom_to_dict_st :: "node \<Rightarrow> nat \<Rightarrow> store \<Rightarrow> (error + val) \<times> store"
  and dom_to_dict_loop_st :: "node list \<Rightarrow> nat \<Rightarrow> val \<Rightarrow> store \<Rightarrow> (error + val) \<times> store" where
  "dom_to_dict_st (Element tagName attrs cs) path h = dom_to_dict_loop_st cs path (Dict []) h"
| "dom_to_dict_st (Document cs) path h = dom_to_dict_loop_st cs path (Dict []) h"
| "dom_to_dict_st (Text s) path h = (Inr (Dict []), h)"
| "dom_to_dict_st Other path h = (Inr (Dict []), h)"
| "dom_to_dict_loop_st [] path result h = (Inr result, h)"
| "dom_to_dict_loop_st (child # rest) path result h =
     (case child of
        Text data \<Rightarrow>
          (let child_data = strip data in
           if length child_data > 0 then
             (case merge_path_st result path ''text'' (Str child_data) h of
                (Inl e, h1) \<Rightarrow> (Inl e, h1)
              | (Inr result', h1) \<Rightarrow> dom_to_dict_loop_st rest path result' h1)
           else dom_to_dict_loop_st rest path result h)
      | Element tagName attrs cs \<Rightarrow>
          (let attributes = attributes_of attrs in
           case (if length attributes > 0
                 then merge_path_st result path ''attributes'' (dict_val attributes) h
                 else (Inr result, h)) of
             (Inl e, h1) \<Rightarrow> (Inl e, h1)
           | (Inr result1, h1) \<Rightarrow>
               (case (if tagName = ''rowset''
                      then rowset_call_st child path attrs attributes h1
                      else (case list_concat path [tagName] h1 of
                              (q, h2) \<Rightarrow> dom_to_dict_st child q h2)) of
                  (Inl e, h3) \<Rightarrow> (Inl e, h3)
                | (Inr sub, h3) \<Rightarrow>
                    (case dict_update result1 sub of
                       Inl e \<Rightarrow> (Inl e, h3)
                     | Inr result2 \<Rightarrow> dom_to_dict_loop_st rest path result2 h3)))
      | _ \<Rightarrow> dom_to_dict_loop_st rest path result h)"

text \<open>
  \<open>frame h h'\<close>: every list allocated in \<open>h\<close> has the same contents in \<open>h'\<close>. \<open>fresh_store\<close> is
  the store in which only the default path object exists, at reference 0, and is empty.
\<close>

definition frame :: "store \<Rightarrow> store \<Rightarrow> bool" where
  "frame h h' = (next_ref h \<le> next_ref h' \<and> (\<forall>a < next_ref h. cells h' a = cells h a))"

definition fresh_store :: store where
  "fresh_store = \<lparr>cells = (\<lambda>a. []), next_ref = 1\<rparr>"

section \<open>Deep merge on a heap of dictionaries\<close>

text \<open>
  \<^verbatim>\<open>_dict_update\<close> changes \<open>dict1\<close> in place and returns it. To say which objects a call
  touches, the dictionaries are placed in a heap: a value is a string or a reference to a
  dictionary object, \<open>dicts\<close> gives the items of the object at a reference, and the references
  below \<open>next_dict\<close> are allocated. \<open>new_dict\<close> is the display \<^verbatim>\<open>{}\<close>, \<open>set_item\<close> is
  \<^verbatim>\<open>d[k] = v\<close>.
\<close>

datatype hval = HStr string | HRef nat

record heap =
  dicts :: "nat \<Rightarrow> (string \<times> hval) list"
  next_dict :: nat

definition new_dict :: "heap \<Rightarrow> nat \<times> heap" where
  "new_dict h =
     (next_dict h, h\<lparr>dicts := (dicts h)(next_dict h := []), next_dict := Suc (next_dict h)\<rparr>)"

definition set_item :: "nat \<Rightarrow> string \<Rightarrow> hval \<Rightarrow> heap \<Rightarrow> heap" where
  "set_item a k v h = h\<lparr>dicts := (dicts h)(a := dict_set (dicts h a) k v)\<rparr>"

text \<open>
  \<open>items_loop\<close> is the loop \<^verbatim>\<open>for k, v in dict2.iteritems()\<close> over the positions of the items of
  the object \<open>dict2\<close>, read from the heap as it is when the position is reached; the iterator
  raises \<^verbatim>\<open>RuntimeError\<close> when the size of the dictionary differs from its size \<open>n0\<close> at the
  start of the loop. \<^verbatim>\<open>dict1.get\<close> raises \<^verbatim>\<open>AttributeError\<close> on a string before the default
  \<^verbatim>\<open>{}\<close> is created. In the second branch the stored value \<^verbatim>\<open>dict2[k]\<close> is \<open>v\<close>, the value of the
  item just read. \<open>call\<close> stands for the recursive call. \<open>dict_update_h depth\<close> is
  \<^verbatim>\<open>_dict_update\<close> with room for \<open>depth\<close> nested calls: a call without room raises the
  interpreter's \<^verbatim>\<open>RuntimeError\<close> (maximum recursion depth exceeded), which is what a cyclic
  \<open>dict2\<close> ends in.
\<close>

fun items_loop ::
  "(hval \<Rightarrow> hval \<Rightarrow> heap \<Rightarrow> (error + hval) \<times> heap) \<Rightarrow>
   hval \<Rightarrow> nat \<Rightarrow> nat \<Rightarrow> nat list \<Rightarrow> heap \<Rightarrow> (error + hval) \<times> heap" where
  "items_loop call dict1 a2 n0 [] h =
     (if length (dicts h a2) \<noteq> n0 then (Inl RuntimeError, h) else (Inr dict1, h))"
| "items_loop call dict1 a2 n0 (i # rest) h =
     (if length (dicts h a2) \<noteq> n0 then (Inl RuntimeError, h)
      else
        (case dicts h a2 ! i of
           (k, v) \<Rightarrow>
             (case v of
                HRef av \<Rightarrow>
                  (case dict1 of
                     HStr s1 \<Rightarrow> (Inl AttributeError, h)
                   | HRef a1 \<Rightarrow>
                       (case new_dict h of
                          (e, h1) \<Rightarrow>
                            (case call (dict_get (dicts h1 a1) k (HRef e)) v h1 of
                               (Inl err, h2) \<Rightarrow> (Inl err, h2)
                             | (Inr r, h2) \<Rightarrow>
                                 items_loop call dict1 a2 n0 rest (set_item a1 k r h2))))
              | HStr s \<Rightarrow>
                  (case dict1 of
                     HStr s1 \<Rightarrow> (Inl TypeError, h)
                   | HRef a1 \<Rightarrow>
                       items_loop call dict1 a2 n0 rest (set_item a1 k v h)))))"

primrec dict_update_h :: "nat \<Rightarrow> hval \<Rightarrow> hval \<Rightarrow> heap \<Rightarrow> (error + hval) \<times> heap" where
  "dict_update_h 0 = (\<lambda>dict1 dict2 h. (Inl RuntimeError, h))"
| "dict_update_h (Suc depth) =
     (\<lambda>dict1 dict2 h.
        case dict2 of
          HStr s \<Rightarrow> (Inl AttributeError, h)
        | HRef a2 \<Rightarrow>
            items_loop (dict_update_h depth) dict1 a2 (length (dicts h a2))
              [0..<length (dicts h a2)] h)"

text \<open>
  The dictionary objects reachable from a value; a set of references closed under the items
  of a heap; the references of a value. \<open>extends h S h'\<close>: going from \<open>h\<close> to \<open>h'\<close> allocates
  objects, changes no allocated object outside \<open>S\<close>, and makes the objects of \<open>S\<close> and the new
  ones refer only to each other. \<open>frame_safe call\<close>: a call whose first argument lies in a
  closed set \<open>S\<close> extends the heap in this sense and, when it returns, returns its first
  argument.
\<close>

inductive_set reach :: "heap \<Rightarrow> hval \<Rightarrow> nat set" for h :: heap and v :: hval where
  root: "v = HRef a \<Longrightarrow> a \<in> reach h v"
| step: "a \<in> reach h v \<Longrightarrow> (k, HRef b) \<in> set (dicts h a) \<Longrightarrow> b \<in> reach h v"

definition closed_under :: "heap \<Rightarrow> nat set \<Rightarrow> bool" where
  "closed_under h S = (\<forall>a \<in> S. \<forall>k b. (k, HRef b) \<in> set (dicts h a) \<longrightarrow> b \<in> S)"

fun refs :: "hval \<Rightarrow> nat set" where
  "refs (HStr s) = {}"
| "refs (HRef a) = {a}"

definition extends :: "heap \<Rightarrow> nat set \<Rightarrow> heap \<Rightarrow> bool" where
  "extends h S h' =
     (next_dict h \<le> next_dict h' \<and>
      closed_under h' (S \<union> {next_dict h ..< next_dict h'}) \<and>
      (\<forall>a. a \<notin> S \<and> a < next_dict h \<longrightarrow> dicts h' a = dicts h a))"

definition frame_safe ::
  "(hval \<Rightarrow> hval \<Rightarrow> heap \<Rightarrow> (error + hval) \<times> heap) \<Rightarrow> bool" where
  "frame_safe call =
     (\<forall>dict1 dict2 h S res h'.
        closed_under h S \<and> refs dict1 \<subseteq> S \<and> call dict1 dict2 h = (res, h') \<longrightarrow>
        extends h S h' \<and> (\<forall>r. res = Inr r \<longrightarrow> r = dict1))"

text \<open>
  Two heaps. In \<open>alias_heap\<close> the destination (object 0) and the source (object 1) share the
  empty dictionary 2: \<open>dst = {a: m}\<close>, \<open>src = {a: {x: "1"}, b: m}\<close>. In \<open>sep_heap\<close> they share
  nothing: \<open>dst = {a: {u: "0"}}\<close>, \<open>src = {a: {x: "1"}, b: "y"}\<close>.
\<close>

definition alias_heap :: heap where
  "alias_heap =
     \<lparr>dicts = (\<lambda>a. []) (0 := [(''a'', HRef 2)],
                         1 := [(''a'', HRef 3), (''b'', HRef 2)],
                         2 := [],
                         3 := [(''x'', HStr ''1'')]),
      next_dict = 4\<rparr>"

definition sep_heap :: heap where
  "sep_heap =
     \<lparr>dicts = (\<lambda>a. []) (0 := [(''a'', HRef 2)],
                         1 := [(''a'', HRef 3), (''b'', HStr ''y'')],
                         2 := [(''u'', HStr ''0'')],
                         3 := [(''x'', HStr ''1'')]),
      next_dict = 4\<rparr>"

text \<open>
  The element children of a rowset whose tag is \<open>row\<close>, and two rowsets that hold, beside a
  \<open>row\<close>, an element \<open>note\<close>: one with the key attribute and one without.
\<close>

definition row_children :: "node list \<Rightarrow> node list" where
  "row_children cs = filter (\<lambda>c. case c of Element tagName attrs ecs \<Rightarrow> tagName = ''row'' | _ \<Rightarrow> False) cs"

definition note_rowset :: node where
  "note_rowset =
     Element ''rowset'' [(''name'', ''r''), (''key'', ''id'')]
      [Element ''row'' [(''id'', ''1'')] [], Element ''note'' [(''id'', ''2'')] []]"

definition keyless_note_rowset :: node where
  "keyless_note_rowset =
     Element ''rowset'' [(''name'', ''r''), (''key'', ''id'')]
      [Element ''row'' [(''id'', ''1'')] [], Element ''note'' [] []]"

text \<open>
  \<open>writes_text child\<close>: the child can put an entry at the key \<open>text\<close> of its parent's
  dictionary, being a text node with non-empty stripped data, an element tagged \<open>text\<close> or a
  rowset named \<open>text\<close>.
\<close>

fun writes_text :: "node \<Rightarrow> bool" where
  "writes_text (Text s) = (strip s \<noteq> [])"
| "writes_text (Element tagName attrs cs) =
     (if tagName = ''rowset'' then map_of attrs ''name'' = Some ''text'' else tagName = ''text'')"
| "writes_text (Document cs) = False"
| "writes_text Other = False"

section \<open>Dictionaries\<close>

lemma map_of_dict_set: "map_of (dict_set d k v) k' = (if k' = k then Some v else map_of d k')"
  by (induction d) auto

lemma keys_dict_set: "fst ` set (dict_set d k v) = insert k (fst ` set d)"
  unfolding dom_map_of_conv_image_fst[symmetric]
  by (auto simp: map_of_dict_set split: if_splits)

lemma distinct_dict_set: "distinct (map fst d) \<Longrightarrow> distinct (map fst (dict_set d k v))"
  by (induction d) (auto simp: keys_dict_set)

lemma dict_set_fresh: "k \<notin> fst ` set d \<Longrightarrow> dict_set d k v = d @ [(k, v)]"
  by (induction d) auto

lemma dict_set_map:
  "dict_set (map (\<lambda>(k, v). (k, f v)) d) k (f v) = map (\<lambda>(k, v). (k, f v)) (dict_set d k v)"
  by (induction d) auto

lemma nest_Nil [simp]: "nest [] v = v"
  by (simp add: nest_def)

lemma nest_Cons [simp]: "nest (k # ks) v = Dict [(k, nest ks v)]"
  by (simp add: nest_def)

lemma nest_append: "nest (p @ q) v = nest p (nest q v)"
  by (simp add: nest_def)

lemma follow_nest: "follow (path @ q) (nest path v) = follow q v"
  by (induction path) auto

section \<open>The builder\<close>

lemma dict_with_path_loop_nest: "dict_with_path_loop ps l v = nest (ps @ [l]) v"
  by (induction ps) auto

lemma dict_with_path_nest: "path \<noteq> [] \<Longrightarrow> dict_with_path path v = Inr (nest path v)"
  by (simp add: dict_with_path_def dict_with_path_loop_nest)

text \<open>
  C5. An empty path makes the builder fail with \<^verbatim>\<open>IndexError\<close>. For a non-empty path
  \<open>[k1, ..., kn]\<close> and a value \<open>v\<close> it returns \<open>{k1: {k2: {... {kn: v}}}}\<close>: following the
  path through the result yields \<open>v\<close>, and the first segment is the only top-level key.
\<close>

theorem dict_with_path_correct:
  "dict_with_path [] v = Inl IndexError \<and>
   (path \<noteq> [] \<longrightarrow>
      dict_with_path path v = Inr (nest path v) \<and>
      follow path (nest path v) = Some v \<and>
      (\<exists>d. nest path v = Dict [(hd path, d)]))"
proof -
  have "follow path (nest path v) = Some v"
    using follow_nest[of path "[]" v] by simp
  moreover have "path \<noteq> [] \<Longrightarrow> \<exists>d. nest path v = Dict [(hd path, d)]"
    by (cases path) auto
  ultimately show ?thesis
    by (simp add: dict_with_path_nest) (simp add: dict_with_path_def)
qed

theorem dict_with_path_correct_witness:
  "[''key1'', ''key2''] \<noteq> [] \<and>
   dict_with_path [''key1'', ''key2''] (Str ''some value'') =
     Inr (Dict [(''key1'', Dict [(''key2'', Str ''some value'')])]) \<and>
   follow [''key1'', ''key2''] (Dict [(''key1'', Dict [(''key2'', Str ''some value'')])]) =
     Some (Str ''some value'')"
  using dict_with_path_correct[of "Str ''some value''" "[''key1'', ''key2'']"] by simp

section \<open>Deep merge\<close>

lemma dict_update_Dict:
  "dict_update (Dict d1) src = Inr r \<Longrightarrow> \<exists>d. r = Dict d"
proof (induction "Dict d1" src arbitrary: d1 r rule: dict_update.induct)
  case (1 s)
  then show ?case by simp
next
  case 2
  then show ?case by auto
next
  case (3 k v dict2)
  then show ?case by (auto split: val.splits sum.splits)
qed

lemma dict_update_step:
  "dict_update (Dict d1) (Dict ((k, v) # rest)) = Inr r \<longleftrightarrow>
   (\<exists>w. (case v of Str s \<Rightarrow> w = v | Dict m \<Rightarrow> dict_update (dict_get d1 k (Dict [])) v = Inr w) \<and>
        dict_update (Dict (dict_set d1 k w)) (Dict rest) = Inr r)"
  by (auto split: val.splits sum.splits)

lemma dict_update_disjoint:
  "wf_val (Dict src) \<Longrightarrow> fst ` set d1 \<inter> fst ` set src = {} \<Longrightarrow>
   dict_update (Dict d1) (Dict src) = Inr (Dict (d1 @ src))"
proof (induction "size (Dict src)" arbitrary: d1 src rule: less_induct)
  case less
  show ?case
  proof (cases src)
    case Nil
    then show ?thesis by simp
  next
    case (Cons kv rest)
    obtain k v where kv: "kv = (k, v)" by (cases kv)
    have k: "k \<notin> fst ` set d1" using less.prems(2) Cons kv by auto
    then have "map_of d1 k = None" by (simp add: map_of_eq_None_iff)
    then have k': "dict_get d1 k dflt = dflt" for dflt
      by (simp add: dict_get_def)
    have wf: "wf_val (Dict rest)" "wf_val v" "k \<notin> fst ` set rest"
      using less.prems(1) Cons kv by auto
    have rest: "dict_update (Dict (d1 @ [(k, w)])) (Dict rest) = Inr (Dict ((d1 @ [(k, w)]) @ rest))" for w
      using less.prems(2) wf kv Cons by (intro less.hyps) auto
    show ?thesis
    proof (cases v)
      case (Str s)
      then show ?thesis using Cons kv k rest[of "Str s"] by (simp add: dict_set_fresh)
    next
      case (Dict m)
      have "dict_update (Dict []) (Dict m) = Inr (Dict ([] @ m))"
        using wf(2) Dict Cons kv by (intro less.hyps) auto
      then show ?thesis using Dict Cons kv k k' rest[of "Dict m"] by (simp add: dict_set_fresh)
    qed
  qed
qed

lemma dict_update_lookup:
  "distinct (map fst src) \<Longrightarrow> dict_update (Dict d1) (Dict src) = Inr (Dict d') \<Longrightarrow>
   (case map_of src k of
      None \<Rightarrow> map_of d' k = map_of d1 k
    | Some (Str s) \<Rightarrow> map_of d' k = Some (Str s)
    | Some (Dict m) \<Rightarrow>
        \<exists>r. dict_update (dict_get d1 k (Dict [])) (Dict m) = Inr r \<and> map_of d' k = Some r)"
proof (induction src arbitrary: d1)
  case Nil
  then show ?case by simp
next
  case (Cons kv rest)
  obtain k0 v0 where kv: "kv = (k0, v0)" by (cases kv)
  from Cons.prems(2) obtain w where
    w: "case v0 of Str s \<Rightarrow> w = v0 | Dict m \<Rightarrow> dict_update (dict_get d1 k0 (Dict [])) v0 = Inr w"
    and rest: "dict_update (Dict (dict_set d1 k0 w)) (Dict rest) = Inr (Dict d')"
    unfolding kv dict_update_step by blast
  have dist: "distinct (map fst rest)" "map_of rest k0 = None"
    using Cons.prems(1) kv by (auto simp: map_of_eq_None_iff)
  note IH = Cons.IH[OF dist(1) rest]
  show ?case
  proof (cases "k = k0")
    case True
    then show ?thesis using IH dist(2) w kv
      by (auto simp: map_of_dict_set split: val.splits)
  next
    case False
    then show ?thesis using IH kv
      by (auto simp: map_of_dict_set dict_get_def split: option.splits val.splits)
  qed
qed

lemma dict_update_succeeds_iff:
  "distinct (map fst src) \<Longrightarrow>
   (\<exists>r. dict_update (Dict d1) (Dict src) = Inr r) \<longleftrightarrow>
   (\<forall>k m. map_of src k = Some (Dict m) \<longrightarrow>
      (\<exists>r. dict_update (dict_get d1 k (Dict [])) (Dict m) = Inr r))"
proof (induction src arbitrary: d1)
  case Nil
  then show ?case by simp
next
  case (Cons kv rest)
  obtain k0 v0 where kv: "kv = (k0, v0)" by (cases kv)
  have dist: "distinct (map fst rest)" "map_of rest k0 = None"
    using Cons.prems(1) kv by (auto simp: map_of_eq_None_iff)
  have other: "map_of rest k = Some x \<Longrightarrow> dict_get (dict_set d1 k0 w) k dflt = dict_get d1 k dflt"
    for k x w dflt
    using dist(2) by (auto simp: dict_get_def map_of_dict_set)
  have IH: "(\<exists>r. dict_update (Dict (dict_set d1 k0 w)) (Dict rest) = Inr r) \<longleftrightarrow>
     (\<forall>k m. map_of rest k = Some (Dict m) \<longrightarrow>
        (\<exists>r. dict_update (dict_get d1 k (Dict [])) (Dict m) = Inr r))" for w
    unfolding Cons.IH[OF dist(1), of "dict_set d1 k0 w"] using other by auto
  have split: "(\<forall>k m. map_of (kv # rest) k = Some (Dict m) \<longrightarrow> Q k m) \<longleftrightarrow>
     ((\<forall>m. v0 = Dict m \<longrightarrow> Q k0 m) \<and> (\<forall>k m. map_of rest k = Some (Dict m) \<longrightarrow> Q k m))" for Q
    using dist(2) kv by auto
  show ?case
  proof (cases v0)
    case (Str s)
    then show ?thesis unfolding split using IH[of "Str s"] kv by (simp add: dict_update_step)
  next
    case (Dict m)
    have "(\<exists>r. dict_update (Dict d1) (Dict (kv # rest)) = Inr r) \<longleftrightarrow>
       (\<exists>w. dict_update (dict_get d1 k0 (Dict [])) (Dict m) = Inr w \<and>
            (\<exists>r. dict_update (Dict (dict_set d1 k0 w)) (Dict rest) = Inr r))"
      unfolding kv dict_update_step using Dict by auto
    also have "\<dots> \<longleftrightarrow> (\<exists>w. dict_update (dict_get d1 k0 (Dict [])) (Dict m) = Inr w) \<and>
       (\<forall>k m. map_of rest k = Some (Dict m) \<longrightarrow>
          (\<exists>r. dict_update (dict_get d1 k (Dict [])) (Dict m) = Inr r))"
      unfolding IH by auto
    finally show ?thesis unfolding split using Dict by auto
  qed
qed

text \<open>
  C4. Deep merge is the recursive union. When the incoming dictionary \<open>d2\<close> (keys distinct at
  every depth, as in every Python dictionary) shares no top-level key with \<open>d1\<close>, the merge
  returns the entries of \<open>d1\<close> followed by those of \<open>d2\<close>, unchanged, so its size is the sum of
  the two sizes. When \<open>dst\<close> and \<open>src\<close> both hold a dictionary at a key \<open>k\<close>, a merge that
  returns holds at \<open>k\<close> the merge of the two sub-dictionaries; the merge returns exactly when
  the merge at each key where \<open>src\<close> holds a dictionary does. Merging \<open>{a: {b: "1"}}\<close> with
  \<open>{a: {c: "2"}}\<close> yields \<open>{a: {b: "1", c: "2"}}\<close>.
\<close>

theorem dict_update_recursive_union:
  "(wf_val (Dict d2) \<and> fst ` set d1 \<inter> fst ` set d2 = {} \<longrightarrow>
      dict_update (Dict d1) (Dict d2) = Inr (Dict (d1 @ d2)) \<and>
      length (d1 @ d2) = length d1 + length d2) \<and>
   (distinct (map fst src) \<and> map_of dst k = Some (Dict a) \<and> map_of src k = Some (Dict b) \<and>
    dict_update (Dict dst) (Dict src) = Inr r \<longrightarrow>
      (\<exists>m. dict_update (Dict a) (Dict b) = Inr m \<and> follow [k] r = Some m)) \<and>
   (distinct (map fst src) \<longrightarrow>
      (\<exists>r. dict_update (Dict dst) (Dict src) = Inr r) =
      (\<forall>k m. map_of src k = Some (Dict m) \<longrightarrow>
         (\<exists>r. dict_update (dict_get dst k (Dict [])) (Dict m) = Inr r))) \<and>
   dict_update (Dict [(''a'', Dict [(''b'', Str ''1'')])]) (Dict [(''a'', Dict [(''c'', Str ''2'')])]) =
     Inr (Dict [(''a'', Dict [(''b'', Str ''1''), (''c'', Str ''2'')])])"
proof (intro conjI impI)
  assume "wf_val (Dict d2) \<and> fst ` set d1 \<inter> fst ` set d2 = {}"
  then show "dict_update (Dict d1) (Dict d2) = Inr (Dict (d1 @ d2))"
    by (simp add: dict_update_disjoint)
next
  show "length (d1 @ d2) = length d1 + length d2" by simp
next
  assume h: "distinct (map fst src) \<and> map_of dst k = Some (Dict a) \<and>
    map_of src k = Some (Dict b) \<and> dict_update (Dict dst) (Dict src) = Inr r"
  then obtain d' where r: "r = Dict d'" using dict_update_Dict by blast
  from h r have "dict_update (Dict dst) (Dict src) = Inr (Dict d')" by simp
  from dict_update_lookup[OF _ this, of k] h r
  show "\<exists>m. dict_update (Dict a) (Dict b) = Inr m \<and> follow [k] r = Some m"
    by (auto simp: dict_get_def)
next
  assume "distinct (map fst src)"
  then show "(\<exists>r. dict_update (Dict dst) (Dict src) = Inr r) =
      (\<forall>k m. map_of src k = Some (Dict m) \<longrightarrow>
         (\<exists>r. dict_update (dict_get dst k (Dict [])) (Dict m) = Inr r))"
    by (rule dict_update_succeeds_iff)
next
  show "dict_update (Dict [(''a'', Dict [(''b'', Str ''1'')])]) (Dict [(''a'', Dict [(''c'', Str ''2'')])]) =
     Inr (Dict [(''a'', Dict [(''b'', Str ''1''), (''c'', Str ''2'')])])"
    by (simp add: dict_get_def)
qed

theorem dict_update_recursive_union_witness:
  "wf_val (Dict [(''c'', Str ''2'')]) \<and>
   fst ` set [(''a'', Str ''1'')] \<inter> fst ` set [(''c'', Str ''2'')] = {} \<and>
   dict_update (Dict [(''a'', Str ''1'')]) (Dict [(''c'', Str ''2'')]) =
     Inr (Dict [(''a'', Str ''1''), (''c'', Str ''2'')]) \<and>
   distinct (map fst [(''a'', Dict [(''c'', Str ''2'')])]) \<and>
   map_of [(''a'', Dict [(''b'', Str ''1'')])] ''a'' = Some (Dict [(''b'', Str ''1'')]) \<and>
   map_of [(''a'', Dict [(''c'', Str ''2'')])] ''a'' = Some (Dict [(''c'', Str ''2'')]) \<and>
   dict_update (Dict [(''a'', Dict [(''b'', Str ''1'')])]) (Dict [(''a'', Dict [(''c'', Str ''2'')])]) =
     Inr (Dict [(''a'', Dict [(''b'', Str ''1''), (''c'', Str ''2'')])]) \<and>
   (\<exists>m. dict_update (Dict [(''b'', Str ''1'')]) (Dict [(''c'', Str ''2'')]) = Inr m \<and>
        follow [''a''] (Dict [(''a'', Dict [(''b'', Str ''1''), (''c'', Str ''2'')])]) = Some m)"
  using dict_update_recursive_union[of "[(''c'', Str ''2'')]" "[(''a'', Str ''1'')]"
      "[(''a'', Dict [(''c'', Str ''2'')])]" "[(''a'', Dict [(''b'', Str ''1'')])]" "''a''"
      "[(''b'', Str ''1'')]" "[(''c'', Str ''2'')]"
      "Dict [(''a'', Dict [(''b'', Str ''1''), (''c'', Str ''2'')])]"]
  by (simp add: dict_get_def)

text \<open>
  C2. Where \<open>dict1\<close> holds a string at a key and \<open>dict2\<close> a non-empty dictionary, the
  recursive call receives the string as its \<open>dict1\<close> and the assignment into it raises
  \<^verbatim>\<open>TypeError\<close>: merging \<open>{a: "x"}\<close> with \<open>{a: {b: "1"}}\<close> does not return.
\<close>

theorem dict_update_map_onto_string:
  "dict_update (Dict [(''a'', Str ''x'')]) (Dict [(''a'', Dict [(''b'', Str ''1'')])]) = Inl TypeError"
  by (simp add: dict_get_def)

section \<open>The server status document\<close>

lemma server_status_conversion: "dom_to_dict server_status_doc [] = Inr server_status_dict"
  by (simp add: server_status_doc_def server_status_dict_def dict_with_path_def attributes_of_def
      dict_val_def dict_get_def strip_def is_space_def)

text \<open>
  C1, as the code has it. The attributes of an element are stored under the key
  \<open>attributes\<close> at the path of its parent, so the attributes of the root element \<open>eveapi\<close>
  are at the top level, beside the \<open>eveapi\<close> entry: converting the server status document
  from the document node with an empty path yields
  \<open>{attributes: {version: "2"}, eveapi: {currentTime: {text: ...}, result: {serverOpen: {text:
  "True"}, onlinePlayers: {text: "30356"}}, cachedUntil: {text: ...}}}\<close>.
\<close>

theorem dom_to_dict_server_status:
  "dom_to_dict server_status_doc [] = Inr server_status_dict \<and>
   follow [''attributes''] server_status_dict = Some (Dict [(''version'', Str ''2'')])"
  using server_status_conversion by (simp add: server_status_dict_def)

text \<open>
  The result has no \<open>attributes\<close> key inside the \<open>eveapi\<close> entry, where the dictionary with
  the nested attributes has the attribute map.
\<close>

theorem dom_to_dict_server_status_counterexample:
  "dom_to_dict server_status_doc [] = Inr server_status_dict \<and>
   follow [''eveapi'', ''attributes''] server_status_dict = None \<and>
   follow [''eveapi'', ''attributes''] server_status_nested = Some (Dict [(''version'', Str ''2'')])"
  by (simp add: server_status_doc_def server_status_dict_def server_status_nested_def
      dict_with_path_def attributes_of_def dict_val_def dict_get_def strip_def is_space_def)

section \<open>Rowset conversion\<close>

lemma distinct_fold_dict_set:
  "distinct (map fst d) \<Longrightarrow> distinct (map fst (fold (\<lambda>(k, v) d. dict_set d k v) xs d))"
  by (induction xs arbitrary: d) (auto simp: distinct_dict_set)

lemma distinct_attributes_of: "distinct (map fst (attributes_of attrs))"
  by (simp add: attributes_of_def distinct_fold_dict_set)

lemma fold_dict_set_fresh:
  "distinct (map fst xs) \<Longrightarrow> fst ` set d \<inter> fst ` set xs = {} \<Longrightarrow>
   fold (\<lambda>(k, v) d. dict_set d k v) xs d = d @ xs"
proof (induction xs arbitrary: d)
  case Nil
  then show ?case by simp
next
  case (Cons x xs)
  obtain k v where x: "x = (k, v)" by (cases x)
  have "fold (\<lambda>(k, v) d. dict_set d k v) xs (d @ [(k, v)]) = (d @ [(k, v)]) @ xs"
    using Cons.prems x by (intro Cons.IH) auto
  then show ?case using Cons.prems x by (simp add: dict_set_fresh)
qed

lemma attributes_of_distinct: "distinct (map fst attrs) \<Longrightarrow> attributes_of attrs = attrs"
  using fold_dict_set_fresh[of attrs "[]"] by (simp add: attributes_of_def)

lemma merge_attrs_Nil: "distinct (map fst A) \<Longrightarrow> merge_attrs [] A = A"
  using fold_dict_set_fresh[of A "[]"] by (simp add: merge_attrs_def)

lemma map_of_fold_dict_set:
  "map_of (fold (\<lambda>(k, v) d. dict_set d k v) xs d) a =
   (case map_of (rev xs) a of None \<Rightarrow> map_of d a | Some v \<Rightarrow> Some v)"
  by (induction xs arbitrary: d) (auto simp: map_of_dict_set map_add_def split: option.splits)

lemma map_of_rev_distinct: "distinct (map fst xs) \<Longrightarrow> map_of (rev xs) a = map_of xs a"
proof (induction xs)
  case Nil
  then show ?case by simp
next
  case (Cons x xs)
  obtain k v where x: "x = (k, v)" by (cases x)
  have "map_of xs k = None" using Cons.prems x by (simp add: map_of_eq_None_iff)
  then show ?case using Cons x by (auto simp: map_add_def split: option.splits)
qed

lemma map_of_merge_attrs:
  "distinct (map fst A) \<Longrightarrow>
   map_of (merge_attrs old A) a = (case map_of A a of None \<Rightarrow> map_of old a | Some v \<Rightarrow> Some v)"
  by (simp add: merge_attrs_def map_of_fold_dict_set map_of_rev_distinct)

lemma dict_val_simps [simp]:
  "dict_val [] = Dict []" "dict_val ((k, v) # d) = Dict ((k, Str v) # map (\<lambda>(k, v). (k, Str v)) d)"
  by (simp_all add: dict_val_def)

lemma flat_merge: "dict_update (dict_val old) (dict_val new) = Inr (dict_val (merge_attrs old new))"
proof (induction new arbitrary: old)
  case Nil
  then show ?case by (simp add: merge_attrs_def dict_val_def)
next
  case (Cons x new)
  obtain k v where x: "x = (k, v)" by (cases x)
  have "dict_update (dict_val old) (dict_val (x # new)) =
        dict_update (dict_val (dict_set old k v)) (dict_val new)"
    unfolding x dict_val_def by (simp add: dict_set_map[where f = Str])
  then show ?case using Cons.IH[of "dict_set old k v"] x by (simp add: merge_attrs_def)
qed

lemma wf_dict_val: "distinct (map fst A) \<Longrightarrow> wf_val (dict_val A)"
  by (auto simp: dict_val_def comp_def case_prod_unfold)

lemma dict_get_table:
  "dict_get (map (\<lambda>(kv, A). (kv, dict_val A)) T) kv (Dict []) = dict_val (dict_get T kv [])"
  by (induction T) (auto simp: dict_get_def)

lemma table_merge:
  "dict_update (table_val T) (Dict [(kv, dict_val A)]) =
   Inr (table_val (dict_set T kv (merge_attrs (dict_get T kv []) A)))"
proof -
  obtain m where m: "dict_val A = Dict m" by (simp add: dict_val_def)
  have "dict_update (table_val T) (Dict [(kv, Dict m)]) =
        Inr (Dict (dict_set (map (\<lambda>(kv, A). (kv, dict_val A)) T) kv
                    (dict_val (merge_attrs (dict_get T kv []) A))))"
    using flat_merge[of "dict_get T kv []" A] m
    by (simp add: table_val_def dict_get_table)
  then show ?thesis
    using m by (simp add: table_val_def dict_set_map[where f = dict_val])
qed

lemma nest_Dict: "\<exists>m. nest path (Dict b) = Dict m"
  by (cases path) auto

lemma nest_merge:
  "dict_update (nest path (Dict a)) (nest path (Dict b)) =
   (case dict_update (Dict a) (Dict b) of Inl e \<Rightarrow> Inl e | Inr r \<Rightarrow> Inr (nest path r))"
proof (induction path)
  case Nil
  then show ?case by (simp split: sum.splits)
next
  case (Cons p path)
  obtain m where m: "nest path (Dict b) = Dict m" using nest_Dict by blast
  obtain m' where m': "nest path (Dict a) = Dict m'" using nest_Dict by blast
  show ?case using Cons m m'
    by (auto simp: dict_get_def split: sum.splits)
qed

lemma wf_nest: "wf_val v \<Longrightarrow> wf_val (nest path v)"
  by (induction path) auto

lemma dict_update_empty: "wf_val (Dict m) \<Longrightarrow> dict_update (Dict []) (Dict m) = Inr (Dict m)"
  using dict_update_disjoint[of m "[]"] by simp

lemma lift_nonempty: "d \<noteq> [] \<Longrightarrow> lift path (Dict d) = nest path (Dict d)"
  by (simp add: lift_def)

lemma lift_empty [simp]: "lift path (Dict []) = Dict []"
  by (simp add: lift_def)

lemma dict_set_nonempty [simp]: "dict_set d k v \<noteq> []"
  by (cases d) (auto split: if_splits)

lemma table_val_Nil [simp]: "table_val [] = Dict []"
  by (simp add: table_val_def)

lemma row_step:
  assumes "distinct (map fst A)" "map_of A key = Some kv"
  shows "dict_update (lift path (table_val T)) (nest (path @ [kv]) (dict_val A)) =
         Inr (lift path (table_val (table_step key A T)))"
proof (cases "T = []")
  case True
  have wf: "wf_val (nest (path @ [kv]) (dict_val A))"
    using assms(1) by (simp add: wf_nest wf_dict_val)
  obtain m where m: "nest (path @ [kv]) (dict_val A) = Dict m"
    using nest_Dict[of "path @ [kv]"] by (auto simp: dict_val_def)
  have "table_val (table_step key A []) = Dict [(kv, dict_val A)]"
    using assms by (simp add: table_step_def table_val_def dict_get_def merge_attrs_Nil)
  then have "lift path (table_val (table_step key A [])) = nest (path @ [kv]) (dict_val A)"
    by (simp add: lift_def nest_append)
  then show ?thesis using True wf m dict_update_empty[of m] by simp
next
  case False
  then have T: "lift path (table_val T) = nest path (table_val T)"
    by (simp add: lift_def table_val_def)
  have "table_val (table_step key A T) \<noteq> Dict []"
    using assms by (simp add: table_step_def table_val_def)
  then have T': "lift path (table_val (table_step key A T)) = nest path (table_val (table_step key A T))"
    by (simp add: lift_def)
  have "dict_update (nest path (table_val T)) (nest path (Dict [(kv, dict_val A)])) =
        Inr (nest path (table_val (table_step key A T)))"
    unfolding table_val_def nest_merge
    using table_merge[of T kv A] assms(2) by (simp add: table_val_def table_step_def)
  then show ?thesis unfolding T T' by (simp add: nest_append)
qed

lemma process_eveapi_rowset_loop_table:
  "\<forall>A \<in> set (row_dicts cs). map_of A key \<noteq> None \<Longrightarrow>
   process_eveapi_rowset_loop cs path key (lift path (table_val T)) =
   Inr (lift path (table_val (fold (table_step key) (row_dicts cs) T)))"
proof (induction cs arbitrary: T)
  case Nil
  then show ?case by simp
next
  case (Cons child rest)
  show ?case
  proof (cases child)
    case (Element tagName attrs cs')
    let ?A = "attributes_of attrs"
    from Cons.prems Element obtain kv where kv: "map_of ?A key = Some kv" by auto
    have step: "dict_update (lift path (table_val T)) (nest (path @ [kv]) (dict_val ?A)) =
         Inr (lift path (table_val (table_step key ?A T)))"
      using row_step[OF distinct_attributes_of kv] .
    have "process_eveapi_rowset_loop rest path key (lift path (table_val (table_step key ?A T))) =
          Inr (lift path (table_val (fold (table_step key) (row_dicts rest) (table_step key ?A T))))"
      using Cons.prems Element by (intro Cons.IH) auto
    then show ?thesis using Element kv step by (simp add: dict_with_path_nest)
  next
    case (Text s)
    then show ?thesis using Cons by simp
  next
    case (Document ds)
    then show ?thesis using Cons by simp
  next
    case Other
    then show ?thesis using Cons by simp
  qed
qed

lemma distinct_row_dicts: "A \<in> set (row_dicts cs) \<Longrightarrow> distinct (map fst A)"
  by (induction cs rule: row_dicts.induct) (auto simp: distinct_attributes_of)

lemma table_fold_distinct:
  "\<forall>A \<in> set rows. distinct (map fst A) \<and> map_of A key \<noteq> None \<Longrightarrow>
   distinct (map (\<lambda>A. the (map_of A key)) rows) \<Longrightarrow>
   fst ` set T \<inter> (\<lambda>A. the (map_of A key)) ` set rows = {} \<Longrightarrow>
   fold (table_step key) rows T = T @ map (\<lambda>A. (the (map_of A key), A)) rows"
proof (induction rows arbitrary: T)
  case Nil
  then show ?case by simp
next
  case (Cons A rows)
  from Cons.prems(1) obtain kv where kv: "map_of A key = Some kv" by auto
  have fresh: "kv \<notin> fst ` set T" using Cons.prems(3) kv by auto
  then have "map_of T kv = None" by (simp add: map_of_eq_None_iff)
  then have step: "table_step key A T = T @ [(kv, A)]"
    using kv fresh Cons.prems(1) by (simp add: table_step_def dict_get_def merge_attrs_Nil dict_set_fresh)
  have tl: "\<forall>x \<in> set (A # rows). P x \<Longrightarrow> \<forall>x \<in> set rows. P x" for P
    by simp
  have p1: "\<forall>A \<in> set rows. distinct (map fst A) \<and> map_of A key \<noteq> None"
    using Cons.prems(1) by (rule tl)
  have p2: "distinct (map (\<lambda>A. the (map_of A key)) rows)"
    using Cons.prems(2) by simp
  have p3: "fst ` set (T @ [(kv, A)]) \<inter> (\<lambda>A. the (map_of A key)) ` set rows = {}"
    using Cons.prems(2,3) kv by auto
  have "fold (table_step key) rows (T @ [(kv, A)]) =
        (T @ [(kv, A)]) @ map (\<lambda>A. (the (map_of A key), A)) rows"
    using Cons.IH[OF p1 p2 p3] .
  then show ?case using step kv by simp
qed

lemma follow_lift_table:
  "follow (path @ [kv, a]) (lift path (table_val T)) =
   (case map_of T kv of None \<Rightarrow> None | Some A \<Rightarrow> map_option Str (map_of A a))"
proof -
  have flat: "follow [a] (dict_val A) = map_option Str (map_of A a)" for A
    by (induction A) (auto simp: dict_val_def)
  have tab: "map_of (map (\<lambda>(kv, A). (kv, dict_val A)) T) kv = map_option dict_val (map_of T kv)"
    by (induction T) auto
  have inner: "follow [kv, a] (table_val T) =
     (case map_of T kv of None \<Rightarrow> None | Some A \<Rightarrow> map_option Str (map_of A a))"
    using flat by (simp add: table_val_def tab split: option.splits)
  show ?thesis
  proof (cases "T = []")
    case True
    then show ?thesis by (cases path) auto
  next
    case False
    then have "lift path (table_val T) = nest path (table_val T)"
      by (simp add: lift_def table_val_def)
    then show ?thesis using inner by (simp add: follow_nest)
  qed
qed

lemma table_step_lookup:
  "distinct (map fst A) \<Longrightarrow>
   (case map_of (table_step key A T) kv of None \<Rightarrow> None | Some B \<Rightarrow> map_of B a) =
   (if map_of A key = Some kv
    then (case map_of A a of None \<Rightarrow> (case map_of T kv of None \<Rightarrow> None | Some B \<Rightarrow> map_of B a)
          | Some v \<Rightarrow> Some v)
    else (case map_of T kv of None \<Rightarrow> None | Some B \<Rightarrow> map_of B a))"
  by (auto simp: table_step_def map_of_dict_set map_of_merge_attrs dict_get_def split: option.splits)

lemma table_fold_lookup:
  "\<forall>A \<in> set rows. distinct (map fst A) \<Longrightarrow>
   (case map_of (fold (table_step key) rows T) kv of None \<Rightarrow> None | Some B \<Rightarrow> map_of B a) =
   (case map_of (concat (rev (filter (\<lambda>A. map_of A key = Some kv) rows))) a of
      None \<Rightarrow> (case map_of T kv of None \<Rightarrow> None | Some B \<Rightarrow> map_of B a)
    | Some v \<Rightarrow> Some v)"
proof (induction rows arbitrary: T)
  case Nil
  then show ?case by simp
next
  case (Cons A rows)
  have IH: "(case map_of (fold (table_step key) rows (table_step key A T)) kv of None \<Rightarrow> None | Some B \<Rightarrow> map_of B a) =
   (case map_of (concat (rev (filter (\<lambda>A. map_of A key = Some kv) rows))) a of
      None \<Rightarrow> (case map_of (table_step key A T) kv of None \<Rightarrow> None | Some B \<Rightarrow> map_of B a)
    | Some v \<Rightarrow> Some v)"
    using Cons.prems by (intro Cons.IH) auto
  have A: "distinct (map fst A)" using Cons.prems by simp
  show ?case
    unfolding fold_simps IH table_step_lookup[OF A]
    by (auto simp: map_add_def split: option.splits)
qed

text \<open>
  C6, as the code has it. The rowset converter takes every element child for a row, whatever
  its tag. When every element child of the rowset carries the key attribute and the key
  values are pairwise distinct, rowset conversion returns, under the target path, exactly
  one entry per element child, in document order: the key is the value of the child's key
  attribute, the value is the child's attribute dictionary with every value a string as it
  stands in the document. (With no element child the result is the empty dictionary.) The
  attribute dictionary of a child is its list of attributes whenever the attribute names
  are distinct, as they are in every parsed element.
\<close>

theorem rowset_entries:
  assumes "\<forall>A \<in> set (row_dicts cs). map_of A key \<noteq> None"
    and "distinct (map (\<lambda>A. the (map_of A key)) (row_dicts cs))"
  shows "process_eveapi_rowset (Element tagName attrs cs) path key =
           Inr (lift path (Dict (map (\<lambda>A. (the (map_of A key), dict_val A)) (row_dicts cs)))) \<and>
         (\<forall>A \<in> set (row_dicts cs).
            follow (path @ [the (map_of A key)])
              (lift path (Dict (map (\<lambda>A. (the (map_of A key), dict_val A)) (row_dicts cs)))) =
            Some (dict_val A)) \<and>
         (\<forall>as. distinct (map fst as) \<longrightarrow> attributes_of as = as)"
proof -
  let ?T = "map (\<lambda>A. (the (map_of A key), A)) (row_dicts cs)"
  have "fold (table_step key) (row_dicts cs) [] = [] @ ?T"
    using assms by (intro table_fold_distinct) (auto simp: distinct_row_dicts)
  then have "process_eveapi_rowset (Element tagName attrs cs) path key = Inr (lift path (table_val ?T))"
    using process_eveapi_rowset_loop_table[OF assms(1), of path "[]"]
    by (simp add: process_eveapi_rowset_def)
  moreover have tv: "table_val ?T = Dict (map (\<lambda>A. (the (map_of A key), dict_val A)) (row_dicts cs))"
    by (simp add: table_val_def comp_def)
  moreover have "follow (path @ [the (map_of A key)]) (lift path (table_val ?T)) = Some (dict_val A)"
    if "A \<in> set (row_dicts cs)" for A
  proof -
    have ne: "?T \<noteq> []" using that by auto
    have "map_of (map (\<lambda>A. (the (map_of A key), dict_val A)) rows) (the (map_of A key)) = Some (dict_val A)"
      if "A \<in> set rows" "distinct (map (\<lambda>A. the (map_of A key)) rows)" for rows
      using that by (induction rows) (auto simp: image_iff)
    then have "follow [the (map_of A key)] (table_val ?T) = Some (dict_val A)"
      using that assms(2) unfolding tv by simp
    moreover have "lift path (table_val ?T) = nest path (table_val ?T)"
      using ne by (simp add: lift_def table_val_def)
    ultimately show ?thesis by (simp add: follow_nest)
  qed
  ultimately show ?thesis by (simp add: attributes_of_distinct)
qed

theorem rowset_entries_witness:
  "list_all (\<lambda>A. map_of A ''characterID'' \<noteq> None) (row_dicts (childNodes characters_rowset)) \<and>
   distinct (map (\<lambda>A. the (map_of A ''characterID'')) (row_dicts (childNodes characters_rowset))) \<and>
   process_eveapi_rowset characters_rowset [''result'', ''characters''] ''characterID'' =
     Inr (Dict [(''result'', Dict [(''characters'', Dict
       [(''270095316'', Dict
          [(''name'', Str ''fcydo''), (''characterID'', Str ''270095316''),
           (''corporationName'', Str ''Odylab Research''), (''corporationID'', Str ''1214825692'')]),
        (''499939401'', Dict
          [(''name'', Str ''hcydo''), (''characterID'', Str ''499939401''),
           (''corporationName'', Str ''Odylab Research''), (''corporationID'', Str ''1214825692'')]),
        (''515300277'', Dict
          [(''name'', Str ''pcydo''), (''characterID'', Str ''515300277''),
           (''corporationName'', Str ''Odylab Research''), (''corporationID'', Str ''1214825692'')])])])])"
proof -
  let ?cs = "childNodes characters_rowset"
  have h1: "\<forall>A \<in> set (row_dicts ?cs). map_of A ''characterID'' \<noteq> None"
    by (simp add: characters_rowset_def attributes_of_def)
  have h2: "distinct (map (\<lambda>A. the (map_of A ''characterID'')) (row_dicts ?cs))"
    by (simp add: characters_rowset_def attributes_of_def)
  have el: "characters_rowset =
    Element ''rowset''
      [(''name'', ''characters''), (''key'', ''characterID''),
       (''columns'', ''name,characterID,corporationName,corporationID'')] ?cs"
    by (simp add: characters_rowset_def)
  from rowset_entries[OF h1 h2, of "''rowset''"
      "[(''name'', ''characters''), (''key'', ''characterID''),
        (''columns'', ''name,characterID,corporationName,corporationID'')]"
      "[''result'', ''characters'']"]
  have "process_eveapi_rowset characters_rowset [''result'', ''characters''] ''characterID'' =
     Inr (lift [''result'', ''characters'']
       (Dict (map (\<lambda>A. (the (map_of A ''characterID''), dict_val A)) (row_dicts ?cs))))"
    unfolding el[symmetric] by blast
  then show ?thesis using h1 h2
    by (simp add: list_all_iff) (simp add: characters_rowset_def attributes_of_def lift_def dict_val_def)
qed

text \<open>
  A rowset with one \<open>row\<close> child, which carries the key attribute, and an element \<open>note\<close>:
  when \<open>note\<close> carries the key attribute the result has two entries, one of them for
  \<open>note\<close>; when it does not, the conversion raises \<^verbatim>\<open>KeyError\<close> on the key attribute.
\<close>

theorem rowset_entries_counterexample:
  "row_children (childNodes note_rowset) = [Element ''row'' [(''id'', ''1'')] []] \<and>
   row_children (childNodes keyless_note_rowset) = [Element ''row'' [(''id'', ''1'')] []] \<and>
   process_eveapi_rowset note_rowset [''r''] ''id'' =
     Inr (Dict [(''r'', Dict [(''1'', Dict [(''id'', Str ''1'')]),
                             (''2'', Dict [(''id'', Str ''2'')])])]) \<and>
   process_eveapi_rowset keyless_note_rowset [''r''] ''id'' = Inl (KeyError ''id'')"
  by (simp add: note_rowset_def keyless_note_rowset_def row_children_def
      process_eveapi_rowset_def attributes_of_def dict_with_path_def dict_val_def dict_get_def)

text \<open>
  C3, as the code has it. Each row is merged into the result with the deep merge, so two
  rows with the same key value are merged field by field: when every element child carries
  the key attribute, conversion returns, and the entry at a key value holds for each
  attribute name the value it has in the last row with that key value that carries the
  attribute. An attribute that only an earlier row carries stays in the entry.
\<close>

theorem rowset_last_write_per_attribute:
  assumes "\<forall>A \<in> set (row_dicts cs). map_of A key \<noteq> None"
  shows "\<exists>r. process_eveapi_rowset (Element tagName attrs cs) path key = Inr r \<and>
           (\<forall>kv a. follow (path @ [kv, a]) r =
              map_option Str (map_of (concat (rev (filter (\<lambda>A. map_of A key = Some kv) (row_dicts cs)))) a))"
proof -
  let ?T = "fold (table_step key) (row_dicts cs) []"
  have r: "process_eveapi_rowset (Element tagName attrs cs) path key = Inr (lift path (table_val ?T))"
    using process_eveapi_rowset_loop_table[OF assms, of path "[]"]
    by (simp add: process_eveapi_rowset_def)
  have "follow (path @ [kv, a]) (lift path (table_val ?T)) =
        map_option Str (map_of (concat (rev (filter (\<lambda>A. map_of A key = Some kv) (row_dicts cs)))) a)"
    for kv a
  proof -
    have "(case map_of ?T kv of None \<Rightarrow> None | Some B \<Rightarrow> map_of B a) =
          map_of (concat (rev (filter (\<lambda>A. map_of A key = Some kv) (row_dicts cs)))) a"
      using table_fold_lookup[where rows = "row_dicts cs" and key = key and T = "[]" and kv = kv and a = a]
      by (auto simp: distinct_row_dicts split: option.splits)
    then show ?thesis
      unfolding follow_lift_table by (auto split: option.splits)
  qed
  then show ?thesis using r by blast
qed

theorem rowset_last_write_per_attribute_witness:
  "list_all (\<lambda>A. map_of A ''id'' \<noteq> None) (row_dicts (childNodes duplicate_rowset)) \<and>
   (\<exists>r. process_eveapi_rowset duplicate_rowset [''r''] ''id'' = Inr r \<and>
        follow [''r'', ''1'', ''x''] r = Some (Str ''a'') \<and>
        follow [''r'', ''1'', ''y''] r = Some (Str ''c'') \<and>
        follow [''r'', ''1'', ''id''] r = Some (Str ''1'') \<and>
        follow [''r'', ''2'', ''y''] r = None)"
proof -
  let ?cs = "childNodes duplicate_rowset"
  have h: "\<forall>A \<in> set (row_dicts ?cs). map_of A ''id'' \<noteq> None"
    by (simp add: duplicate_rowset_def attributes_of_def)
  have el: "duplicate_rowset = Element ''rowset'' [(''name'', ''r''), (''key'', ''id'')] ?cs"
    by (simp add: duplicate_rowset_def)
  from rowset_last_write_per_attribute[OF h, of "''rowset''" "[(''name'', ''r''), (''key'', ''id'')]" "[''r'']"]
  obtain r where r: "process_eveapi_rowset duplicate_rowset [''r''] ''id'' = Inr r"
    and f: "\<And>kv a. follow ([''r''] @ [kv, a]) r =
      map_option Str (map_of (concat (rev (filter (\<lambda>A. map_of A ''id'' = Some kv) (row_dicts ?cs)))) a)"
    unfolding el[symmetric] by blast
  have "follow [''r'', ''1'', ''x''] r = Some (Str ''a'')"
    using f[of "''1''" "''x''"] by (simp add: duplicate_rowset_def attributes_of_def)
  moreover have "follow [''r'', ''1'', ''y''] r = Some (Str ''c'')"
    using f[of "''1''" "''y''"] by (simp add: duplicate_rowset_def attributes_of_def)
  moreover have "follow [''r'', ''1'', ''id''] r = Some (Str ''1'')"
    using f[of "''1''" "''id''"] by (simp add: duplicate_rowset_def attributes_of_def)
  moreover have "follow [''r'', ''2'', ''y''] r = None"
    using f[of "''2''" "''y''"] by (simp add: duplicate_rowset_def attributes_of_def)
  ultimately show ?thesis using r h by (auto simp: list_all_iff)
qed

text \<open>
  The rowset whose first and third rows share the key value \<open>1\<close>: the entry at \<open>1\<close> keeps the
  attribute \<open>x\<close> of the first row, which the third row does not carry, so it is not the
  attribute map of the third row.
\<close>

theorem duplicate_rowset_counterexample:
  "process_eveapi_rowset duplicate_rowset [''r''] ''id'' =
     Inr (Dict [(''r'', Dict [(''1'', Dict [(''id'', Str ''1''), (''x'', Str ''a''), (''y'', Str ''c'')]),
                             (''2'', Dict [(''id'', Str ''2''), (''x'', Str ''b'')])])])"
  by (simp add: duplicate_rowset_def process_eveapi_rowset_def attributes_of_def dict_with_path_def
      dict_val_def dict_get_def)

section \<open>Conversion of a document\<close>

lemma loop_Text:
  "dom_to_dict_loop (Text s # rest) path R =
   (if strip s = [] then dom_to_dict_loop rest path R
    else case dict_update R (nest (path @ [''text'']) (Str (strip s))) of
           Inl e \<Rightarrow> Inl e
         | Inr R' \<Rightarrow> dom_to_dict_loop rest path R')"
  by (simp add: Let_def dict_with_path_nest)

lemma loop_Element:
  "dom_to_dict_loop (Element tagName attrs cs # rest) path R =
   (case (if attributes_of attrs = [] then Inr R
          else dict_update R (nest (path @ [''attributes'']) (dict_val (attributes_of attrs)))) of
      Inl e \<Rightarrow> Inl e
    | Inr R1 \<Rightarrow>
        (case sub_result (Element tagName attrs cs) path of
           Inl e \<Rightarrow> Inl e
         | Inr sub \<Rightarrow>
             (case dict_update R1 sub of
                Inl e \<Rightarrow> Inl e
              | Inr R2 \<Rightarrow> dom_to_dict_loop rest path R2)))"
  by (simp add: Let_def dict_with_path_nest sub_result_def cong: sum.case_cong)

lemma loop_skip:
  "dom_to_dict_loop (Document ds # rest) path R = dom_to_dict_loop rest path R"
  "dom_to_dict_loop (Other # rest) path R = dom_to_dict_loop rest path R"
  by simp_all

lemmas loop_simps = loop_Text loop_Element loop_skip

declare dom_to_dict_loop.simps(2) [simp del]

declare loop_simps [simp]

lemma dom_to_dict_loop_append:
  "dom_to_dict_loop (cs @ cs') path R =
   (case dom_to_dict_loop cs path R of Inl e \<Rightarrow> Inl e | Inr R' \<Rightarrow> dom_to_dict_loop cs' path R')"
proof (induction cs arbitrary: R)
  case Nil
  then show ?case by simp
next
  case (Cons child cs)
  show ?case
    by (cases child) (simp_all only: append_Cons loop_simps Cons.IH split: sum.splits if_splits, auto split: sum.splits)
qed

lemma nest_merge_empty:
  "dict_update (Dict []) (nest path (Dict b)) =
   (case dict_update (Dict []) (Dict b) of Inl e \<Rightarrow> Inl e | Inr r \<Rightarrow> Inr (nest path r))"
proof (induction path)
  case Nil
  then show ?case by (simp split: sum.splits)
next
  case (Cons p path)
  obtain m where m: "nest path (Dict b) = Dict m" using nest_Dict by blast
  show ?case using Cons m
    by (auto simp: dict_get_def split: sum.splits)
qed

lemma merge_rooted:
  assumes "rooted path R" "dict_update R (nest path (Dict b)) = Inr R'"
  shows "rooted path R'"
proof -
  from assms(1) consider "R = Dict []" | x where "R = nest path (Dict x)"
    unfolding rooted_def by blast
  then show ?thesis
  proof cases
    case 1
    with assms(2) obtain r where "dict_update (Dict []) (Dict b) = Inr r" "R' = nest path r"
      by (auto simp: nest_merge_empty split: sum.splits)
    then show ?thesis using dict_update_Dict[of "[]" "Dict b" r] by (auto simp: rooted_def)
  next
    case 2
    with assms(2) obtain r where "dict_update (Dict x) (Dict b) = Inr r" "R' = nest path r"
      by (auto simp: nest_merge split: sum.splits)
    then show ?thesis using dict_update_Dict[of x "Dict b" r] by (auto simp: rooted_def)
  qed
qed

lemma rooted_empty [simp]: "rooted path (Dict [])"
  by (simp add: rooted_def)

lemma rooted_append: "rooted (path @ q) R \<Longrightarrow> rooted path R"
  unfolding rooted_def nest_append using nest_Dict by metis

lemma merge_rooted':
  assumes "rooted path R" "rooted path S" "dict_update R S = Inr R'"
  shows "rooted path R'"
proof (cases "S = Dict []")
  case True
  then show ?thesis using assms by simp
next
  case False
  then obtain b where "S = nest path (Dict b)" using assms(2) by (auto simp: rooted_def)
  then show ?thesis using merge_rooted assms by blast
qed

lemma put_text:
  assumes "rooted path R"
  shows "\<exists>R'. dict_update R (nest (path @ [k]) (Str s)) = Inr R' \<and>
              follow (path @ [k]) R' = Some (Str s)"
proof -
  have n: "nest (path @ [k]) (Str s) = nest path (Dict [(k, Str s)])"
    by (simp add: nest_append)
  from assms consider "R = Dict []" | x where "R = nest path (Dict x)"
    unfolding rooted_def by blast
  then show ?thesis
  proof cases
    case 1
    then show ?thesis unfolding n
      using follow_nest[of path "[k]" "Dict [(k, Str s)]"] by (simp add: nest_merge_empty)
  next
    case 2
    then show ?thesis unfolding n
      using follow_nest[of path "[k]" "Dict (dict_set x k (Str s))"]
      by (simp add: nest_merge map_of_dict_set)
  qed
qed

lemma rowset_loop_rooted:
  "rooted path R \<Longrightarrow> process_eveapi_rowset_loop cs path key R = Inr r \<Longrightarrow> rooted path r"
proof (induction cs arbitrary: R)
  case Nil
  then show ?case by simp
next
  case (Cons child cs)
  show ?case
  proof (cases child)
    case (Element tagName attrs ecs)
    from Cons.prems(2) Element obtain kv R' where
      kv: "map_of (attributes_of attrs) key = Some kv"
      and R': "dict_update R (nest (path @ [kv]) (dict_val (attributes_of attrs))) = Inr R'"
      and rest: "process_eveapi_rowset_loop cs path key R' = Inr r"
      by (auto simp: dict_with_path_nest Let_def split: option.splits sum.splits)
    have "nest (path @ [kv]) (dict_val (attributes_of attrs)) =
          nest path (Dict [(kv, dict_val (attributes_of attrs))])"
      by (simp add: nest_append)
    with R' Cons.prems(1) have "rooted path R'" using merge_rooted by metis
    then show ?thesis using Cons.IH rest by blast
  next
    case (Text s)
    then show ?thesis using Cons by simp
  next
    case (Document ds)
    then show ?thesis using Cons by simp
  next
    case Other
    then show ?thesis using Cons by simp
  qed
qed

lemma process_eveapi_rowset_rooted:
  "process_eveapi_rowset el path key = Inr r \<Longrightarrow> rooted path r"
  unfolding process_eveapi_rowset_def using rowset_loop_rooted[of path "Dict []"] by simp

lemma result_inv_rooted: "result_inv path R \<Longrightarrow> rooted path R"
  by (auto simp: result_inv_def rooted_def)

lemma result_inv_empty [simp]: "result_inv path (Dict [])"
  by (simp add: result_inv_def)

lemma set_dict_set: "set (dict_set d k v) \<subseteq> insert (k, v) (set d)"
  by (induction d) (auto split: if_splits)

lemma level_dict_set: "level x \<Longrightarrow> k = ''text'' \<or> (\<exists>m. w = Dict m) \<Longrightarrow> level (dict_set x k w)"
  unfolding level_def using set_dict_set[of x k w] by blast

lemma level_get: "level x \<Longrightarrow> k \<noteq> ''text'' \<Longrightarrow> \<exists>m. dict_get x k (Dict []) = Dict m"
  unfolding level_def dict_get_def by (auto split: option.splits dest!: map_of_SomeD)

lemma single_merge:
  assumes "level x" "k = ''text'' \<or> (\<exists>m. v = Dict m)"
    "dict_update (Dict x) (Dict [(k, v)]) = Inr r"
  shows "\<exists>x'. r = Dict x' \<and> level x'"
proof (cases v)
  case (Str s)
  then show ?thesis using assms by (auto simp: level_dict_set)
next
  case (Dict m)
  with assms(3) obtain w where w: "dict_update (dict_get x k (Dict [])) (Dict m) = Inr w"
    and r: "r = Dict (dict_set x k w)"
    by (auto split: sum.splits)
  have "k = ''text'' \<or> (\<exists>m. w = Dict m)"
    using level_get[OF assms(1), of k] w dict_update_Dict by (cases "k = ''text''") auto
  then show ?thesis using r assms(1) by (simp add: level_dict_set)
qed

lemma merge_inv:
  assumes "result_inv path R" "k = ''text'' \<or> (\<exists>m. v = Dict m)"
    "dict_update R (nest path (Dict [(k, v)])) = Inr R'"
  shows "result_inv path R'"
proof -
  from assms(1) consider "R = Dict []" | x where "R = nest path (Dict x)" "level x"
    unfolding result_inv_def by blast
  then show ?thesis
  proof cases
    case 1
    with assms(3) obtain r where r: "dict_update (Dict []) (Dict [(k, v)]) = Inr r" "R' = nest path r"
      by (auto simp: nest_merge_empty split: sum.splits)
    have "level []" by (simp add: level_def)
    from single_merge[OF this assms(2) r(1)] r(2) show ?thesis by (auto simp: result_inv_def)
  next
    case 2
    with assms(3) obtain r where r: "dict_update (Dict x) (Dict [(k, v)]) = Inr r" "R' = nest path r"
      by (auto simp: nest_merge split: sum.splits)
    from single_merge[OF 2(2) assms(2) r(1)] r(2) show ?thesis by (auto simp: result_inv_def)
  qed
qed

lemma merge_sub_inv:
  assumes "result_inv path R" "rooted (path @ [q]) S" "dict_update R S = Inr R'"
  shows "result_inv path R'"
proof (cases "S = Dict []")
  case True
  then show ?thesis using assms by simp
next
  case False
  then obtain x where "S = nest path (Dict [(q, Dict x)])"
    using assms(2) by (auto simp: rooted_def nest_append)
  then show ?thesis using merge_inv[OF assms(1), of q "Dict x" R'] assms(3) by simp
qed

lemma flat_onto_dict: "\<exists>r. dict_update (Dict y) (dict_val A) = Inr r"
proof (induction A arbitrary: y)
  case Nil
  then show ?case by (simp add: dict_val_def)
next
  case (Cons a A)
  obtain k v where a: "a = (k, v)" by (cases a)
  show ?case using Cons[of "dict_set y k (Str v)"] a by (simp add: dict_val_def)
qed

lemma attrs_merge_ok:
  assumes "result_inv path R"
  shows "\<exists>R'. dict_update R (nest (path @ [''attributes'']) (dict_val A)) = Inr R' \<and> result_inv path R'"
proof -
  have n: "nest (path @ [''attributes'']) (dict_val A) = nest path (Dict [(''attributes'', dict_val A)])"
    by (simp add: nest_append)
  obtain m where m: "dict_val A = Dict m" by (simp add: dict_val_def)
  have ok: "\<exists>r. dict_update (Dict x) (Dict [(''attributes'', dict_val A)]) = Inr r" if lx: "level x" for x
  proof -
    obtain y where "dict_get x ''attributes'' (Dict []) = Dict y"
      using level_get[OF lx, of "''attributes''"] by auto
    then show ?thesis using flat_onto_dict[of y A] m by auto
  qed
  from assms consider "R = Dict []" | x where "R = nest path (Dict x)" "level x"
    unfolding result_inv_def by blast
  then have "\<exists>R'. dict_update R (nest path (Dict [(''attributes'', dict_val A)])) = Inr R'"
  proof cases
    case 1
    have "level []" by (simp add: level_def)
    from ok[OF this] 1 show ?thesis by (auto simp: nest_merge_empty)
  next
    case 2
    from ok[OF 2(2)] 2(1) show ?thesis by (auto simp: nest_merge)
  qed
  then obtain R' where R': "dict_update R (nest path (Dict [(''attributes'', dict_val A)])) = Inr R'"
    by blast
  have "result_inv path R'"
    using merge_inv[OF assms _ R'] m by simp
  then show ?thesis using R' n by simp
qed

lemma sub_result_rooted:
  assumes "\<And>p r. dom_to_dict child p = Inr r \<Longrightarrow> rooted p r"
    and "sub_result child path = Inr sub"
  shows "\<exists>q. rooted (path @ [q]) sub"
proof (cases child)
  case (Element tagName attrs cs)
  show ?thesis
  proof (cases "tagName = ''rowset''")
    case True
    with assms(2) Element obtain name key where
      "process_eveapi_rowset child (path @ [name]) key = Inr sub"
      by (auto simp: sub_result_def split: option.splits)
    then show ?thesis using process_eveapi_rowset_rooted by blast
  next
    case False
    with assms(2) Element have "dom_to_dict child (path @ [tagName]) = Inr sub"
      by (simp add: sub_result_def)
    then show ?thesis using assms(1) by blast
  qed
qed (use assms(2) in \<open>auto simp: sub_result_def\<close>)

lemma loop_inv:
  assumes "\<And>c p r. c \<in> set cs \<Longrightarrow> dom_to_dict c p = Inr r \<Longrightarrow> rooted p r"
  shows "result_inv path R \<Longrightarrow> dom_to_dict_loop cs path R = Inr r \<Longrightarrow> result_inv path r"
  using assms
proof (induction cs arbitrary: R)
  case Nil
  then show ?case by simp
next
  case (Cons child cs)
  have IH: "result_inv path R' \<Longrightarrow> dom_to_dict_loop cs path R' = Inr r \<Longrightarrow> result_inv path r" for R'
    using Cons.IH[of R'] Cons.prems(3) by (meson list.set_intros(2))
  show ?case
  proof (cases child)
    case (Element tagName attrs ecs)
    from Cons.prems(2) obtain R1 sub R2 where
      R1: "(if attributes_of attrs = [] then Inr R
            else dict_update R (nest (path @ [''attributes'']) (dict_val (attributes_of attrs)))) = Inr R1"
      and sub: "sub_result child path = Inr sub"
      and R2: "dict_update R1 sub = Inr R2"
      and rest: "dom_to_dict_loop cs path R2 = Inr r"
      unfolding Element loop_Element by (auto split: sum.splits)
    have "result_inv path R1"
    proof (cases "attributes_of attrs = []")
      case True
      then show ?thesis using R1 Cons.prems(1) by simp
    next
      case False
      then show ?thesis
        using R1 attrs_merge_ok[OF Cons.prems(1), of "attributes_of attrs"] by auto
    qed
    moreover obtain q where "rooted (path @ [q]) sub"
      using sub_result_rooted[OF _ sub] Cons.prems(3)[of child] by auto
    ultimately have "result_inv path R2" using merge_sub_inv R2 by blast
    then show ?thesis using IH rest by blast
  next
    case (Text s)
    show ?thesis
    proof (cases "strip s = []")
      case True
      then show ?thesis using Cons.prems IH Text by (simp add: loop_Text)
    next
      case False
      with Cons.prems(2) Text obtain R' where
        R': "dict_update R (nest (path @ [''text'']) (Str (strip s))) = Inr R'"
        and rest: "dom_to_dict_loop cs path R' = Inr r"
        by (auto simp: loop_Text split: sum.splits)
      have "result_inv path R'"
        using merge_inv[OF Cons.prems(1), of "''text''" "Str (strip s)" R'] R'
        by (simp add: nest_append)
      then show ?thesis using IH rest by blast
    qed
  next
    case (Document ds)
    then show ?thesis using Cons.prems IH by simp
  next
    case Other
    then show ?thesis using Cons.prems IH by simp
  qed
qed

lemma dom_to_dict_inv: "dom_to_dict n path = Inr r \<Longrightarrow> result_inv path r"
proof (induction n arbitrary: path r)
  case (Element tagName attrs cs)
  then show ?case using loop_inv[of cs path "Dict []" r] result_inv_rooted by auto
next
  case (Text s)
  then show ?case by auto
next
  case (Document cs)
  then show ?case using loop_inv[of cs path "Dict []" r] result_inv_rooted by auto
next
  case Other
  then show ?case by auto
qed

lemma loop_inv':
  "result_inv path R \<Longrightarrow> dom_to_dict_loop cs path R = Inr r \<Longrightarrow> result_inv path r"
  using loop_inv dom_to_dict_inv result_inv_rooted by blast

lemma keys_fold_dict_set:
  "fst ` set (fold (\<lambda>(k, v) d. dict_set d k v) xs d) = fst ` set d \<union> fst ` set xs"
proof (induction xs arbitrary: d)
  case Nil
  then show ?case by simp
next
  case (Cons x xs)
  obtain k v where x: "x = (k, v)" by (cases x)
  show ?case unfolding x using Cons[of "dict_set d k v"] by (simp add: keys_dict_set)
qed

lemma keys_attributes_of: "fst ` set (attributes_of attrs) = fst ` set attrs"
  by (simp add: attributes_of_def keys_fold_dict_set)

lemma attributes_of_None: "map_of (attributes_of attrs) k = None \<longleftrightarrow> k \<notin> fst ` set attrs"
  by (simp add: map_of_eq_None_iff keys_attributes_of)

lemma element_loop:
  "dom_to_dict (Element tagName attrs cs) path = dom_to_dict_loop cs path (Dict [])"
  by simp

lemma single_merge_result:
  assumes "dict_update (Dict x) (Dict [(k, v)]) = Inr r"
  shows "\<exists>w. r = Dict (dict_set x k w)"
  using assms unfolding dict_update_step by auto

lemma keep_text:
  assumes "rooted path R" "k \<noteq> ''text''"
    "dict_update R (nest path (Dict [(k, v)])) = Inr R'"
  shows "follow (path @ [''text'']) R' = follow (path @ [''text'']) R"
proof -
  from assms(1) consider "R = Dict []" | x where "R = nest path (Dict x)"
    unfolding rooted_def by blast
  then show ?thesis
  proof cases
    case 1
    with assms(3) obtain r where r: "dict_update (Dict []) (Dict [(k, v)]) = Inr r" "R' = nest path r"
      by (auto simp: nest_merge_empty split: sum.splits)
    from single_merge_result[OF r(1)] obtain w where "r = Dict [(k, w)]" by auto
    then have "follow (path @ [''text'']) R' = None"
      using r(2) assms(2) follow_nest[of path "[''text'']" r] by simp
    moreover have "follow (path @ [''text'']) (Dict []) = None" by (cases path) auto
    ultimately show ?thesis using 1 by simp
  next
    case 2
    with assms(3) obtain r where r: "dict_update (Dict x) (Dict [(k, v)]) = Inr r" "R' = nest path r"
      by (auto simp: nest_merge split: sum.splits)
    from single_merge_result[OF r(1)] obtain w where "r = Dict (dict_set x k w)" by auto
    then show ?thesis
      using r(2) 2 assms(2) follow_nest[of path "[''text'']"] by (simp add: map_of_dict_set)
  qed
qed

lemma keep_text_sub:
  assumes "rooted path R" "q \<noteq> ''text''" "rooted (path @ [q]) S" "dict_update R S = Inr R'"
  shows "follow (path @ [''text'']) R' = follow (path @ [''text'']) R"
proof (cases "S = Dict []")
  case True
  then show ?thesis using assms by simp
next
  case False
  then obtain x where "S = nest path (Dict [(q, Dict x)])"
    using assms(3) by (auto simp: rooted_def nest_append)
  then show ?thesis using keep_text[OF assms(1,2), of "Dict x" R'] assms(4) by simp
qed

lemma sub_result_rooted_at:
  assumes "sub_result child path = Inr sub" "\<not> writes_text child"
  shows "\<exists>q. q \<noteq> ''text'' \<and> rooted (path @ [q]) sub"
proof (cases child)
  case (Element tagName attrs cs)
  show ?thesis
  proof (cases "tagName = ''rowset''")
    case True
    with assms(1) Element obtain name key where
      n: "map_of attrs ''name'' = Some name"
      and "process_eveapi_rowset child (path @ [name]) key = Inr sub"
      by (auto simp: sub_result_def split: option.splits)
    then have "rooted (path @ [name]) sub" using process_eveapi_rowset_rooted by blast
    moreover have "name \<noteq> ''text''" using assms(2) Element True n by auto
    ultimately show ?thesis by blast
  next
    case False
    with assms(1) Element have "dom_to_dict child (path @ [tagName]) = Inr sub"
      by (simp add: sub_result_def)
    then have "rooted (path @ [tagName]) sub" using dom_to_dict_inv result_inv_rooted by blast
    moreover have "tagName \<noteq> ''text''" using assms(2) Element False by auto
    ultimately show ?thesis by blast
  qed
next
  case (Text s)
  then show ?thesis using assms(1) by (auto simp: sub_result_def intro: exI[of _ "''a''"])
next
  case (Document ds)
  then show ?thesis using assms(1) by (auto simp: sub_result_def intro: exI[of _ "''a''"])
next
  case Other
  then show ?thesis using assms(1) by (auto simp: sub_result_def intro: exI[of _ "''a''"])
qed

lemma loop_keeps_text:
  "\<forall>c \<in> set cs. \<not> writes_text c \<Longrightarrow> result_inv path R \<Longrightarrow>
   dom_to_dict_loop cs path R = Inr r \<Longrightarrow>
   follow (path @ [''text'']) r = follow (path @ [''text'']) R"
proof (induction cs arbitrary: R)
  case Nil
  then show ?case by simp
next
  case (Cons child cs)
  have IH: "result_inv path R' \<Longrightarrow> dom_to_dict_loop cs path R' = Inr r \<Longrightarrow>
     follow (path @ [''text'']) r = follow (path @ [''text'']) R'" for R'
    using Cons.IH[of R'] Cons.prems(1) by simp
  have nw: "\<not> writes_text child" using Cons.prems(1) by simp
  show ?case
  proof (cases child)
    case (Element tagName attrs ecs)
    from Cons.prems(3) obtain R1 sub R2 where
      R1: "(if attributes_of attrs = [] then Inr R
            else dict_update R (nest (path @ [''attributes'']) (dict_val (attributes_of attrs)))) = Inr R1"
      and sub: "sub_result child path = Inr sub"
      and R2: "dict_update R1 sub = Inr R2"
      and rest: "dom_to_dict_loop cs path R2 = Inr r"
      unfolding Element loop_Element by (auto split: sum.splits)
    have i1: "result_inv path R1 \<and> follow (path @ [''text'']) R1 = follow (path @ [''text'']) R"
    proof (cases "attributes_of attrs = []")
      case True
      then show ?thesis using R1 Cons.prems(2) by simp
    next
      case False
      then have m: "dict_update R (nest path (Dict [(''attributes'', dict_val (attributes_of attrs))])) = Inr R1"
        using R1 by (simp add: nest_append)
      have "result_inv path R1"
        using False R1 attrs_merge_ok[OF Cons.prems(2), of "attributes_of attrs"] by auto
      moreover have "follow (path @ [''text'']) R1 = follow (path @ [''text'']) R"
        using keep_text[OF result_inv_rooted[OF Cons.prems(2)] _ m] by simp
      ultimately show ?thesis by simp
    qed
    obtain q where q: "q \<noteq> ''text''" "rooted (path @ [q]) sub"
      using sub_result_rooted_at[OF sub nw] by blast
    have "result_inv path R2" using merge_sub_inv[OF _ q(2) R2] i1 by simp
    moreover have "follow (path @ [''text'']) R2 = follow (path @ [''text'']) R1"
      using keep_text_sub[OF result_inv_rooted q R2] i1 by simp
    ultimately show ?thesis using IH[of R2] rest i1 by simp
  next
    case (Text s)
    then have "strip s = []" using nw by simp
    then show ?thesis using Cons.prems IH[of R] Text by simp
  next
    case (Document ds)
    then show ?thesis using Cons.prems IH[of R] by simp
  next
    case Other
    then show ?thesis using Cons.prems IH[of R] by simp
  qed
qed

text \<open>
  C8. A text child whose stripped data is empty leaves the conversion as it is without the
  child. A text child with non-empty stripped data, met after the children \<open>cs\<close> and before
  the children \<open>cs'\<close>, is merged into the result \<open>r\<close> of \<open>cs\<close> as
  \<open>{path + [text]: stripped data}\<close>: the merge returns a dictionary that holds the stripped
  data at \<open>path + [text]\<close>, and the conversion goes on from that dictionary with \<open>cs'\<close>
  (an error raised by \<open>cs\<close> is raised all the same). When no child of \<open>cs'\<close> writes at the
  key \<open>text\<close>, a conversion that returns holds the stripped data at \<open>path + [text]\<close> in its
  result.
\<close>

theorem text_child_entry:
  "(strip ws = [] \<longrightarrow>
      dom_to_dict (Element tagName attrs (cs @ Text ws # cs')) path =
      dom_to_dict (Element tagName attrs (cs @ cs')) path) \<and>
   (strip s \<noteq> [] \<longrightarrow>
      (case dom_to_dict (Element tagName attrs cs) path of
         Inl e \<Rightarrow>
           dom_to_dict (Element tagName attrs (cs @ Text s # cs')) path = Inl e \<and>
           dom_to_dict (Element tagName attrs (cs @ [Text s])) path = Inl e
       | Inr r \<Rightarrow>
           \<exists>r'. dom_to_dict (Element tagName attrs (cs @ [Text s])) path = Inr r' \<and>
                dict_update r (nest (path @ [''text'']) (Str (strip s))) = Inr r' \<and>
                follow (path @ [''text'']) r' = Some (Str (strip s)) \<and>
                dom_to_dict (Element tagName attrs (cs @ Text s # cs')) path =
                  dom_to_dict_loop cs' path r')) \<and>
   (strip s \<noteq> [] \<and> (\<forall>c \<in> set cs'. \<not> writes_text c) \<and>
    dom_to_dict (Element tagName attrs (cs @ Text s # cs')) path = Inr res \<longrightarrow>
      follow (path @ [''text'']) res = Some (Str (strip s)))"
proof (intro conjI impI)
  assume "strip ws = []"
  then show "dom_to_dict (Element tagName attrs (cs @ Text ws # cs')) path =
      dom_to_dict (Element tagName attrs (cs @ cs')) path"
    by (simp add: dom_to_dict_loop_append cong: sum.case_cong)
next
  assume s: "strip s \<noteq> []"
  show "case dom_to_dict (Element tagName attrs cs) path of
         Inl e \<Rightarrow>
           dom_to_dict (Element tagName attrs (cs @ Text s # cs')) path = Inl e \<and>
           dom_to_dict (Element tagName attrs (cs @ [Text s])) path = Inl e
       | Inr r \<Rightarrow>
           \<exists>r'. dom_to_dict (Element tagName attrs (cs @ [Text s])) path = Inr r' \<and>
                dict_update r (nest (path @ [''text'']) (Str (strip s))) = Inr r' \<and>
                follow (path @ [''text'']) r' = Some (Str (strip s)) \<and>
                dom_to_dict (Element tagName attrs (cs @ Text s # cs')) path =
                  dom_to_dict_loop cs' path r'"
  proof (cases "dom_to_dict (Element tagName attrs cs) path")
    case (Inl e)
    then show ?thesis by (simp add: dom_to_dict_loop_append)
  next
    case (Inr r)
    then have "rooted path r" using dom_to_dict_inv result_inv_rooted by blast
    from put_text[OF this, of "''text''" "strip s"] obtain r' where
      "dict_update r (nest (path @ [''text'']) (Str (strip s))) = Inr r'"
      "follow (path @ [''text'']) r' = Some (Str (strip s))" by blast
    then show ?thesis using Inr s by (simp add: dom_to_dict_loop_append)
  qed
next
  assume a: "strip s \<noteq> [] \<and> (\<forall>c \<in> set cs'. \<not> writes_text c) \<and>
    dom_to_dict (Element tagName attrs (cs @ Text s # cs')) path = Inr res"
  then obtain r where r: "dom_to_dict_loop cs path (Dict []) = Inr r"
    by (auto simp: dom_to_dict_loop_append split: sum.splits)
  then have i: "result_inv path r" using loop_inv'[of path "Dict []" cs r] by simp
  from put_text[OF result_inv_rooted[OF i], of "''text''" "strip s"] obtain r' where
    r': "dict_update r (nest (path @ [''text'']) (Str (strip s))) = Inr r'"
    "follow (path @ [''text'']) r' = Some (Str (strip s))" by blast
  have i': "result_inv path r'"
    using merge_inv[OF i, of "''text''" "Str (strip s)" r'] r'(1) by (simp add: nest_append)
  have "dom_to_dict_loop cs' path r' = Inr res"
    using a r r'(1) by (auto simp: dom_to_dict_loop_append)
  from loop_keeps_text[OF _ i' this] a r'(2)
  show "follow (path @ [''text'']) res = Some (Str (strip s))" by simp
qed

theorem text_child_entry_witness:
  "strip ''  '' = [] \<and>
   dom_to_dict (Element ''r'' [] [Text ''  '', Element ''b'' [] []]) [''result''] =
     dom_to_dict (Element ''r'' [] [Element ''b'' [] []]) [''result''] \<and>
   strip '' True '' \<noteq> [] \<and>
   list_all (\<lambda>c. \<not> writes_text c) [Element ''b'' [] []] \<and>
   dom_to_dict (Element ''r'' [] [Text '' True '', Element ''b'' [] []]) [''result''] =
     Inr (Dict [(''result'', Dict [(''text'', Str ''True'')])]) \<and>
   follow [''result'', ''text''] (Dict [(''result'', Dict [(''text'', Str ''True'')])]) =
     Some (Str ''True'')"
  using text_child_entry[where ws = "''  ''" and tagName = "''r''" and attrs = "[]" and cs = "[]"
      and cs' = "[Element ''b'' [] []]" and path = "[''result'']" and s = "'' True ''"
      and res = "Dict [(''result'', Dict [(''text'', Str ''True'')])]"]
  by (simp add: strip_def is_space_def dict_get_def sub_result_def attributes_of_def)

lemma rowset_child_fails:
  assumes "sub_result (Element ''rowset'' rattrs rcs) path = Inl err"
  shows "dom_to_dict (Element tagName attrs (cs @ Element ''rowset'' rattrs rcs # cs')) path =
         (case dom_to_dict (Element tagName attrs cs) path of
            Inl e \<Rightarrow> Inl e
          | Inr r \<Rightarrow> Inl err)"
proof (cases "dom_to_dict (Element tagName attrs cs) path")
  case (Inl e)
  then show ?thesis by (simp add: dom_to_dict_loop_append)
next
  case (Inr r)
  then have i: "result_inv path r" using dom_to_dict_inv by blast
  have "\<exists>R1. (if attributes_of rattrs = [] then Inr r
          else dict_update r (nest (path @ [''attributes'']) (dict_val (attributes_of rattrs)))) = Inr R1"
    using attrs_merge_ok[OF i, of "attributes_of rattrs"] by auto
  then show ?thesis using Inr assms
    by (auto simp: dom_to_dict_loop_append)
qed

lemma shaped_Dict: "shaped T N (Dict d) = (\<forall>(k, v) \<in> set d. entry_ok T N k v)"
  by (simp add: entry_ok_def)

lemma table_table_merge:
  "\<exists>tc. dict_update (table_val ta) (table_val tb) = Inr (table_val tc)"
proof (induction tb arbitrary: ta)
  case Nil
  then show ?case by (auto simp: table_val_def)
next
  case (Cons e tb)
  obtain kv A where e: "e = (kv, A)" by (cases e)
  obtain m where m: "dict_val A = Dict m" by (simp add: dict_val_def)
  let ?ta' = "dict_set ta kv (merge_attrs (dict_get ta kv []) A)"
  have one: "dict_update (dict_get (map (\<lambda>(kv, A). (kv, dict_val A)) ta) kv (Dict [])) (dict_val A) =
        Inr (dict_val (merge_attrs (dict_get ta kv []) A))"
    by (simp add: dict_get_table flat_merge)
  have "dict_update (table_val ta) (table_val (e # tb)) = dict_update (table_val ?ta') (table_val tb)"
    using one m unfolding e table_val_def
    by (simp add: dict_set_map[where f = dict_val])
  then show ?case using Cons[of ?ta'] by simp
qed

lemma shaped_empty [simp]: "shaped T N (Dict [])"
  by simp

lemma shaped_merge:
  assumes dis: "T \<inter> N = {}" "''text'' \<notin> T \<union> N" "''attributes'' \<notin> T \<union> N"
  shows "shaped T N (Dict d1) \<Longrightarrow> shaped T N (Dict src) \<Longrightarrow>
         \<exists>r. dict_update (Dict d1) (Dict src) = Inr (Dict r) \<and> shaped T N (Dict r)"
proof (induction "size (Dict src)" arbitrary: d1 src rule: less_induct)
  case less
  show ?case
  proof (cases src)
    case Nil
    then show ?thesis using less.prems by simp
  next
    case (Cons kv rest)
    obtain k v where kv: "kv = (k, v)" by (cases kv)
    have ok: "entry_ok T N k v" and rest: "shaped T N (Dict rest)"
      using less.prems(2) unfolding Cons kv shaped_Dict by auto
    have old: "dict_get d1 k (Dict []) = Dict [] \<or> entry_ok T N k (dict_get d1 k (Dict []))"
      using less.prems(1) unfolding shaped_Dict dict_get_def
      by (auto split: option.splits dest!: map_of_SomeD)
    have "\<exists>w. (case v of Str s \<Rightarrow> w = v | Dict m \<Rightarrow> dict_update (dict_get d1 k (Dict [])) v = Inr w) \<and>
              entry_ok T N k w"
    proof -
      from ok consider
        (leaf) s where "k = ''text''" "v = Str s"
        | (attrs) A where "k = ''attributes''" "v = dict_val A"
        | (rowset) tb where "k \<in> N" "v = table_val tb"
        | (element) "k \<in> T" "shaped T N v"
        unfolding entry_ok_def by blast
      then show ?thesis
      proof cases
        case leaf
        then show ?thesis using ok by auto
      next
        case attrs
        obtain m where m: "v = Dict m" using attrs by (simp add: dict_val_def)
        have "k \<noteq> ''text''" "k \<notin> N" "k \<notin> T" using attrs dis by auto
        then have "dict_get d1 k (Dict []) = Dict [] \<or> (\<exists>A. dict_get d1 k (Dict []) = dict_val A)"
          using old unfolding entry_ok_def by blast
        then obtain A0 where "dict_get d1 k (Dict []) = dict_val A0"
          using dict_val_simps(1) by metis
        then have "dict_update (dict_get d1 k (Dict [])) v = Inr (dict_val (merge_attrs A0 A))"
          using attrs flat_merge by simp
        then show ?thesis using m attrs by (auto simp: entry_ok_def)
      next
        case rowset
        obtain m where m: "v = Dict m" using rowset by (simp add: table_val_def)
        have "k \<noteq> ''text''" "k \<noteq> ''attributes''" "k \<notin> T" using rowset dis by auto
        then have "dict_get d1 k (Dict []) = Dict [] \<or> (\<exists>ta. dict_get d1 k (Dict []) = table_val ta)"
          using old unfolding entry_ok_def by blast
        then obtain ta where "dict_get d1 k (Dict []) = table_val ta"
          using table_val_Nil by metis
        then obtain tc where "dict_update (dict_get d1 k (Dict [])) v = Inr (table_val tc)"
          using rowset table_table_merge by metis
        then show ?thesis using m rowset by (auto simp: entry_ok_def)
      next
        case element
        then obtain m where m: "v = Dict m" by (cases v) auto
        have "k \<noteq> ''text''" "k \<noteq> ''attributes''" "k \<notin> N" using element dis by auto
        then have "shaped T N (dict_get d1 k (Dict []))"
          using old unfolding entry_ok_def by auto
        then obtain d0 where d0: "dict_get d1 k (Dict []) = Dict d0" "shaped T N (Dict d0)"
          by (cases "dict_get d1 k (Dict [])") auto
        have "size (Dict m) < size (Dict src)" unfolding Cons kv m by simp
        from less.hyps[OF this d0(2)] element m obtain r where
          "dict_update (Dict d0) (Dict m) = Inr (Dict r)" "shaped T N (Dict r)" by auto
        then show ?thesis using m d0 element by (auto simp: entry_ok_def)
      qed
    qed
    then obtain w where
      w: "case v of Str s \<Rightarrow> w = v | Dict m \<Rightarrow> dict_update (dict_get d1 k (Dict [])) v = Inr w"
      and okw: "entry_ok T N k w" by blast
    have "shaped T N (Dict (dict_set d1 k w))"
      using less.prems(1) okw set_dict_set[of d1 k w] unfolding shaped_Dict by blast
    moreover have "size (Dict rest) < size (Dict src)" unfolding Cons by simp
    ultimately obtain r where
      "dict_update (Dict (dict_set d1 k w)) (Dict rest) = Inr (Dict r)" "shaped T N (Dict r)"
      using less.hyps rest by blast
    then show ?thesis unfolding Cons kv dict_update_step using w by blast
  qed
qed

lemma shaped_merge':
  assumes "T \<inter> N = {}" "''text'' \<notin> T \<union> N" "''attributes'' \<notin> T \<union> N"
    "shaped T N a" "shaped T N b"
  shows "\<exists>r. dict_update a b = Inr r \<and> shaped T N r"
proof -
  obtain d1 src where "a = Dict d1" "b = Dict src"
    using assms(4,5) by (cases a; cases b) auto
  then show ?thesis using shaped_merge[OF assms(1-3), of d1 src] assms(4,5) by auto
qed

lemma shaped_nest: "set path \<subseteq> T \<Longrightarrow> shaped T N v \<Longrightarrow> shaped T N (nest path v)"
  by (induction path) auto

lemma sub_result_shaped:
  assumes "set path \<subseteq> T" "convertible T N child"
    and IH: "\<And>p. (\<forall>c \<in> set (childNodes child). convertible T N c) \<Longrightarrow> set p \<subseteq> T \<Longrightarrow>
               \<exists>r. dom_to_dict child p = Inr r \<and> shaped T N r"
  shows "\<exists>sub. sub_result child path = Inr sub \<and> shaped T N sub"
proof (cases child)
  case (Element tagName attrs cs)
  show ?thesis
  proof (cases "tagName = ''rowset''")
    case True
    with assms(2) Element obtain name key where
      nk: "map_of attrs ''name'' = Some name" "map_of (attributes_of attrs) ''key'' = Some key"
      and N: "name \<in> N" and rows: "\<forall>A \<in> set (row_dicts cs). map_of A key \<noteq> None"
      by (auto split: option.splits)
    let ?tb = "fold (table_step key) (row_dicts cs) []"
    have r: "process_eveapi_rowset child (path @ [name]) key = Inr (lift (path @ [name]) (table_val ?tb))"
      using process_eveapi_rowset_loop_table[OF rows, of "path @ [name]" "[]"] Element
      by (simp add: process_eveapi_rowset_def)
    have "shaped T N (Dict [(name, table_val ?tb)])" using N by auto
    then have "shaped T N (nest (path @ [name]) (table_val ?tb))"
      using shaped_nest[OF assms(1)] by (simp add: nest_append)
    then have "shaped T N (lift (path @ [name]) (table_val ?tb))"
      by (simp add: lift_def)
    then show ?thesis using r nk True Element by (simp add: sub_result_def)
  next
    case False
    with assms(2) Element have "tagName \<in> T" "\<forall>c \<in> set (childNodes child). convertible T N c"
      by auto
    then show ?thesis using IH[of "path @ [tagName]"] assms(1) False Element
      by (simp add: sub_result_def)
  qed
qed (simp_all add: sub_result_def)

lemma loop_shaped:
  assumes dis: "T \<inter> N = {}" "''text'' \<notin> T \<union> N" "''attributes'' \<notin> T \<union> N"
    and path: "set path \<subseteq> T"
  shows "\<forall>c \<in> set cs. convertible T N c \<Longrightarrow>
         (\<And>c p. c \<in> set cs \<Longrightarrow> (\<forall>c' \<in> set (childNodes c). convertible T N c') \<Longrightarrow>
                 set p \<subseteq> T \<Longrightarrow> \<exists>r. dom_to_dict c p = Inr r \<and> shaped T N r) \<Longrightarrow>
         shaped T N R \<Longrightarrow> \<exists>r. dom_to_dict_loop cs path R = Inr r \<and> shaped T N r"
proof (induction cs arbitrary: R)
  case Nil
  then show ?case by simp
next
  case (Cons child cs)
  have IH: "shaped T N R' \<Longrightarrow> \<exists>r. dom_to_dict_loop cs path R' = Inr r \<and> shaped T N r" for R'
    using Cons.IH[of R'] Cons.prems(1,2) by (meson list.set_intros(2))
  note merge = shaped_merge'[OF dis]
  show ?case
  proof (cases child)
    case (Element tagName attrs ecs)
    have "shaped T N (nest (path @ [''attributes'']) (dict_val (attributes_of attrs)))"
      using shaped_nest[OF path, of N "Dict [(''attributes'', dict_val (attributes_of attrs))]"]
      by (auto simp: nest_append)
    from merge[OF Cons.prems(3) this] Cons.prems(3) have
      "\<exists>R1. (if attributes_of attrs = [] then Inr R
            else dict_update R (nest (path @ [''attributes'']) (dict_val (attributes_of attrs)))) = Inr R1 \<and>
          shaped T N R1"
      by (cases "attributes_of attrs = []") auto
    then obtain R1 where
      R1: "(if attributes_of attrs = [] then Inr R
            else dict_update R (nest (path @ [''attributes'']) (dict_val (attributes_of attrs)))) = Inr R1"
      "shaped T N R1" by blast
    have "convertible T N child" using Cons.prems(1) by simp
    from sub_result_shaped[OF path this] Cons.prems(2)[of child] obtain sub where
      sub: "sub_result child path = Inr sub" "shaped T N sub" by auto
    from merge[OF R1(2) sub(2)] obtain R2 where R2: "dict_update R1 sub = Inr R2" "shaped T N R2"
      by blast
    from IH[OF R2(2)] show ?thesis using R1(1) sub(1) R2(1) unfolding Element loop_Element
      by (simp add: Element[symmetric])
  next
    case (Text s)
    have "shaped T N (nest (path @ [''text'']) (Str (strip s)))"
      using shaped_nest[OF path, of N "Dict [(''text'', Str (strip s))]"]
      by (auto simp: nest_append)
    from merge[OF Cons.prems(3) this] obtain R' where
      "dict_update R (nest (path @ [''text'']) (Str (strip s))) = Inr R'" "shaped T N R'" by blast
    then show ?thesis using IH[of R'] IH[OF Cons.prems(3)] Text by auto
  next
    case (Document ds)
    then show ?thesis using IH[OF Cons.prems(3)] by simp
  next
    case Other
    then show ?thesis using IH[OF Cons.prems(3)] by simp
  qed
qed

lemma dom_to_dict_shaped:
  assumes dis: "T \<inter> N = {}" "''text'' \<notin> T \<union> N" "''attributes'' \<notin> T \<union> N"
  shows "\<forall>c \<in> set (childNodes n). convertible T N c \<Longrightarrow> set path \<subseteq> T \<Longrightarrow>
         \<exists>r. dom_to_dict n path = Inr r \<and> shaped T N r"
proof (induction n arbitrary: path)
  case (Element tagName attrs cs)
  show ?case
    using loop_shaped[OF dis Element.prems(2), of cs "Dict []"] Element.IH Element.prems(1)
    by auto
next
  case (Text s)
  then show ?case by simp
next
  case (Document cs)
  show ?case
    using loop_shaped[OF dis Document.prems(2), of cs "Dict []"] Document.IH Document.prems(1)
    by auto
next
  case Other
  then show ?case by simp
qed

lemma rowset_missing:
  "(''name'' \<notin> fst ` set rattrs \<longrightarrow>
      dom_to_dict (Element tagName attrs (cs @ Element ''rowset'' rattrs rcs # cs')) path =
      (case dom_to_dict (Element tagName attrs cs) path of
         Inl e \<Rightarrow> Inl e
       | Inr r \<Rightarrow> Inl (KeyError ''name''))) \<and>
   (''name'' \<in> fst ` set rattrs \<and> ''key'' \<notin> fst ` set rattrs \<longrightarrow>
      dom_to_dict (Element tagName attrs (cs @ Element ''rowset'' rattrs rcs # cs')) path =
      (case dom_to_dict (Element tagName attrs cs) path of
         Inl e \<Rightarrow> Inl e
       | Inr r \<Rightarrow> Inl (KeyError ''key'')))"
proof (intro conjI impI)
  assume "''name'' \<notin> fst ` set rattrs"
  then have "map_of rattrs ''name'' = None"
    by (simp add: map_of_eq_None_iff)
  then have "sub_result (Element ''rowset'' rattrs rcs) path = Inl (KeyError ''name'')"
    by (simp add: sub_result_def)
  then show "dom_to_dict (Element tagName attrs (cs @ Element ''rowset'' rattrs rcs # cs')) path =
      (case dom_to_dict (Element tagName attrs cs) path of
         Inl e \<Rightarrow> Inl e
       | Inr r \<Rightarrow> Inl (KeyError ''name''))"
    by (rule rowset_child_fails)
next
  assume "''name'' \<in> fst ` set rattrs \<and> ''key'' \<notin> fst ` set rattrs"
  then have "map_of rattrs ''name'' \<noteq> None" "map_of (attributes_of rattrs) ''key'' = None"
    by (simp_all add: map_of_eq_None_iff keys_attributes_of)
  then have "sub_result (Element ''rowset'' rattrs rcs) path = Inl (KeyError ''key'')"
    by (auto simp: sub_result_def)
  then show "dom_to_dict (Element tagName attrs (cs @ Element ''rowset'' rattrs rcs # cs')) path =
      (case dom_to_dict (Element tagName attrs cs) path of
         Inl e \<Rightarrow> Inl e
       | Inr r \<Rightarrow> Inl (KeyError ''key''))"
    by (rule rowset_child_fails)
qed

text \<open>
  C7, as the code has it. When the conversion of an element meets, after the children
  \<open>cs\<close>, a rowset child without a \<open>name\<close> attribute, it raises \<^verbatim>\<open>KeyError\<close> on \<open>name\<close>; with a
  \<open>name\<close> but without a \<open>key\<close> attribute it raises \<^verbatim>\<open>KeyError\<close> on \<open>key\<close> (an error raised
  by \<open>cs\<close> comes first). A rowset inside a row is never visited. Conversion returns on every
  document whose visited rowsets carry both attributes, whose rows carry the key attribute,
  and whose tag names and rowset names are disjoint from each other and from the keys
  \<open>text\<close> and \<open>attributes\<close>.
\<close>

theorem rowset_failure_and_success:
  "(''name'' \<notin> fst ` set ra \<longrightarrow>
      dom_to_dict (Element tagName attrs (cs @ Element ''rowset'' ra rcs # cs')) path =
      (case dom_to_dict (Element tagName attrs cs) path of
         Inl e \<Rightarrow> Inl e
       | Inr r \<Rightarrow> Inl (KeyError ''name''))) \<and>
   (''name'' \<in> fst ` set rb \<and> ''key'' \<notin> fst ` set rb \<longrightarrow>
      dom_to_dict (Element tagName attrs (cs @ Element ''rowset'' rb rcs # cs')) path =
      (case dom_to_dict (Element tagName attrs cs) path of
         Inl e \<Rightarrow> Inl e
       | Inr r \<Rightarrow> Inl (KeyError ''key''))) \<and>
   (T \<inter> N = {} \<and> ''text'' \<notin> T \<union> N \<and> ''attributes'' \<notin> T \<union> N \<and>
    (\<forall>c \<in> set (childNodes n). convertible T N c) \<and> set p \<subseteq> T \<longrightarrow>
      (\<exists>r. dom_to_dict n p = Inr r))"
proof (intro conjI impI)
  assume "''name'' \<notin> fst ` set ra"
  then show "dom_to_dict (Element tagName attrs (cs @ Element ''rowset'' ra rcs # cs')) path =
      (case dom_to_dict (Element tagName attrs cs) path of
         Inl e \<Rightarrow> Inl e
       | Inr r \<Rightarrow> Inl (KeyError ''name''))"
    using rowset_missing[of ra tagName attrs cs rcs cs' path] by blast
next
  assume "''name'' \<in> fst ` set rb \<and> ''key'' \<notin> fst ` set rb"
  then show "dom_to_dict (Element tagName attrs (cs @ Element ''rowset'' rb rcs # cs')) path =
      (case dom_to_dict (Element tagName attrs cs) path of
         Inl e \<Rightarrow> Inl e
       | Inr r \<Rightarrow> Inl (KeyError ''key''))"
    using rowset_missing[of rb tagName attrs cs rcs cs' path] by blast
next
  assume "T \<inter> N = {} \<and> ''text'' \<notin> T \<union> N \<and> ''attributes'' \<notin> T \<union> N \<and>
    (\<forall>c \<in> set (childNodes n). convertible T N c) \<and> set p \<subseteq> T"
  then show "\<exists>r. dom_to_dict n p = Inr r"
    using dom_to_dict_shaped[of T N n p] by blast
qed

theorem rowset_failure_and_success_witness:
  "''name'' \<notin> fst ` set [(''key'', ''id'')] \<and>
   dom_to_dict (Element ''result'' [] [Element ''rowset'' [(''key'', ''id'')] []]) [] =
     Inl (KeyError ''name'') \<and>
   ''name'' \<in> fst ` set [(''name'', ''a'')] \<and> ''key'' \<notin> fst ` set [(''name'', ''a'')] \<and>
   dom_to_dict (Element ''result'' [] [Element ''rowset'' [(''name'', ''a'')] []]) [] =
     Inl (KeyError ''key'') \<and>
   {''eveapi'', ''result''} \<inter> {''characters''} = {} \<and>
   list_all (convertible {''eveapi'', ''result''} {''characters''}) (childNodes characters_doc) \<and>
   (\<exists>r. dom_to_dict characters_doc [] = Inr r)"
  using rowset_failure_and_success[of "[(''key'', ''id'')]" "''result''" "[]" "[]" "[]" "[]" "[]"
      "[(''name'', ''a'')]" "{''eveapi'', ''result''}" "{''characters''}" characters_doc "[]"]
  by (simp add: characters_doc_def characters_rowset_def attributes_of_def)

text \<open>
  The nested rowset without \<open>name\<close> and \<open>key\<close> does not make the conversion fail, and the
  document \<^verbatim>\<open><r>hi<text>yo</text></r>\<close>, which has no rowset at all, makes it fail: the
  dictionary of the element \<open>text\<close> is merged onto the string stored for the text \<open>hi\<close>.
\<close>

theorem rowset_failure_and_success_counterexample:
  "dom_to_dict nested_rowset_doc [] =
     Inr (Dict [(''attributes'', Dict [(''name'', Str ''a''), (''key'', Str ''id'')]),
                (''a'', Dict [(''1'', Dict [(''id'', Str ''1'')])])]) \<and>
   dom_to_dict text_clash_doc [] = Inl TypeError"
  by (simp add: nested_rowset_doc_def text_clash_doc_def sub_result_def process_eveapi_rowset_def
      attributes_of_def dict_with_path_def dict_val_def dict_get_def strip_def is_space_def)

section \<open>Determinism\<close>

lemma frame_refl [simp]: "frame h h"
  by (simp add: frame_def)

lemma frame_trans: "frame h h1 \<Longrightarrow> frame h1 h2 \<Longrightarrow> frame h h2"
  by (auto simp: frame_def)

lemma frame_cells: "frame h h' \<Longrightarrow> p < next_ref h \<Longrightarrow> cells h' p = cells h p \<and> p < next_ref h'"
  by (auto simp: frame_def)

lemma list_concat_frame:
  assumes "list_concat p xs h = (q, h1)"
  shows "frame h h1" "cells h1 q = cells h p @ xs" "q < next_ref h1"
  using assms by (auto simp: list_concat_def frame_def)

lemma build_st:
  assumes "list_concat p xs h = (q, h1)" "dict_with_path_st q v h1 = (d, h2)"
  shows "d = dict_with_path (cells h p @ xs) v" "frame h h2"
proof -
  have q: "q = next_ref h" "cells h1 q = cells h p @ xs" "next_ref h1 = Suc (next_ref h)"
    "\<forall>a < next_ref h. cells h1 a = cells h a"
    using assms(1) by (auto simp: list_concat_def)
  show "d = dict_with_path (cells h p @ xs) v"
    using assms(2) q(2) by (auto simp: dict_with_path_st_def dict_with_path_def split: if_splits)
  show "frame h h2"
    using assms(2) q by (auto simp: dict_with_path_st_def frame_def split: if_splits)
qed

lemma merge_path_st:
  "\<exists>h2. merge_path_st R p k v h = (dict_update R (nest (cells h p @ [k]) v), h2) \<and> frame h h2"
proof -
  obtain q h1 where c: "list_concat p [k] h = (q, h1)" by (cases "list_concat p [k] h")
  obtain d h2 where b: "dict_with_path_st q v h1 = (d, h2)"
    by (cases "dict_with_path_st q v h1")
  have "d = Inr (nest (cells h p @ [k]) v)" "frame h h2"
    using build_st[OF c b] by (simp_all add: dict_with_path_nest)
  then show ?thesis using c b by (simp add: merge_path_st_def)
qed


lemma rowset_loop_st:
  "p < next_ref h \<Longrightarrow> process_eveapi_rowset_loop_st cs p key R h = (res, h') \<Longrightarrow>
   res = process_eveapi_rowset_loop cs (cells h p) key R \<and> frame h h'"
proof (induction cs arbitrary: R h)
  case Nil
  then show ?case by auto
next
  case (Cons child cs)
  show ?case
  proof (cases child)
    case (Element tagName attrs ecs)
    let ?A = "attributes_of attrs"
    show ?thesis
    proof (cases "map_of ?A key")
      case None
      then show ?thesis using Cons.prems Element by auto
    next
      case (Some kv)
      define r1 where "r1 = dict_update R (nest (cells h p @ [kv]) (dict_val ?A))"
      obtain h1 where m: "merge_path_st R p kv (dict_val ?A) h = (r1, h1)" and f: "frame h h1"
        using merge_path_st[of R p kv "dict_val ?A" h] unfolding r1_def by blast
      have p1: "cells h1 p = cells h p" "p < next_ref h1"
        using frame_cells[OF f Cons.prems(1)] by auto
      have st: "process_eveapi_rowset_loop_st (child # cs) p key R h =
         (case r1 of
            Inl e \<Rightarrow> (Inl e, h1)
          | Inr R' \<Rightarrow> process_eveapi_rowset_loop_st cs p key R' h1)"
        using Element Some m by (simp split: sum.splits)
      have val: "process_eveapi_rowset_loop (child # cs) (cells h p) key R =
         (case r1 of
            Inl e \<Rightarrow> Inl e
          | Inr R' \<Rightarrow> process_eveapi_rowset_loop cs (cells h p) key R')"
        using Element Some unfolding r1_def by (simp add: dict_with_path_nest)
      show ?thesis
      proof (cases r1)
        case (Inl e)
        have "res = Inl e" "h' = h1" using Cons.prems(2) Inl unfolding st by simp_all
        then show ?thesis unfolding val using Inl f by simp
      next
        case (Inr R')
        have "process_eveapi_rowset_loop_st cs p key R' h1 = (res, h')"
          using Cons.prems(2) Inr unfolding st by simp
        from Cons.IH[OF p1(2) this] show ?thesis
          unfolding val using p1(1) f Inr frame_trans by auto
      qed
    qed
  next
    case (Text s)
    then show ?thesis using Cons by auto
  next
    case (Document ds)
    then show ?thesis using Cons by auto
  next
    case Other
    then show ?thesis using Cons by auto
  qed
qed

lemma process_eveapi_rowset_st_refines:
  "p < next_ref h \<Longrightarrow> process_eveapi_rowset_st el p key h = (res, h') \<Longrightarrow>
   res = process_eveapi_rowset el (cells h p) key \<and> frame h h'"
  unfolding process_eveapi_rowset_st_def process_eveapi_rowset_def by (rule rowset_loop_st)

lemma sub_result_st:
  assumes IH: "\<And>q h2 res h'. q < next_ref h2 \<Longrightarrow>
               dom_to_dict_st (Element tagName attrs cs) q h2 = (res, h') \<Longrightarrow>
               res = dom_to_dict (Element tagName attrs cs) (cells h2 q) \<and> frame h2 h'"
  shows "\<exists>h3. (if tagName = ''rowset''
                then rowset_call_st (Element tagName attrs cs) p attrs (attributes_of attrs) h
                else (case list_concat p [tagName] h of
                        (q, h2) \<Rightarrow> dom_to_dict_st (Element tagName attrs cs) q h2)) =
               (sub_result (Element tagName attrs cs) (cells h p), h3) \<and> frame h h3"
proof (cases "tagName = ''rowset''")
  case True
  show ?thesis
  proof (cases "map_of attrs ''name''")
    case None
    then show ?thesis using True by (auto simp: sub_result_def rowset_call_st_def)
  next
    case (Some name)
    obtain q h2 where c: "list_concat p [name] h = (q, h2)" by (cases "list_concat p [name] h")
    note cf = list_concat_frame[OF c]
    show ?thesis
    proof (cases "map_of (attributes_of attrs) ''key''")
      case None
      then show ?thesis using True Some c cf(1) by (auto simp: sub_result_def rowset_call_st_def)
    next
      case key: (Some key)
      obtain res h3 where r: "process_eveapi_rowset_st (Element tagName attrs cs) q key h2 = (res, h3)"
        by (cases "process_eveapi_rowset_st (Element tagName attrs cs) q key h2")
      from process_eveapi_rowset_st_refines[OF cf(3) r]
      have "res = process_eveapi_rowset (Element tagName attrs cs) (cells h p @ [name]) key" "frame h h3"
        using cf(1,2) frame_trans by auto
      then show ?thesis using True Some key c r by (auto simp: sub_result_def rowset_call_st_def)
    qed
  qed
next
  case False
  obtain q h2 where c: "list_concat p [tagName] h = (q, h2)" by (cases "list_concat p [tagName] h")
  note cf = list_concat_frame[OF c]
  obtain res h3 where r: "dom_to_dict_st (Element tagName attrs cs) q h2 = (res, h3)"
    by (cases "dom_to_dict_st (Element tagName attrs cs) q h2")
  from IH[OF cf(3) r]
  have "res = dom_to_dict (Element tagName attrs cs) (cells h p @ [tagName])" "frame h h3"
    using cf(1,2) frame_trans by auto
  then show ?thesis using False c r by (simp add: sub_result_def)
qed


lemma loop_st:
  assumes IH: "\<And>c q h2 res h'. c \<in> set cs \<Longrightarrow> q < next_ref h2 \<Longrightarrow>
               dom_to_dict_st c q h2 = (res, h') \<Longrightarrow>
               res = dom_to_dict c (cells h2 q) \<and> frame h2 h'"
  shows "p < next_ref h \<Longrightarrow> dom_to_dict_loop_st cs p R h = (res, h') \<Longrightarrow>
         res = dom_to_dict_loop cs (cells h p) R \<and> frame h h'"
  using IH
proof (induction cs arbitrary: R h)
  case Nil
  then show ?case by auto
next
  case (Cons child cs)
  have rest: "p < next_ref h1 \<Longrightarrow> dom_to_dict_loop_st cs p R1 h1 = (res, h') \<Longrightarrow>
     res = dom_to_dict_loop cs (cells h1 p) R1 \<and> frame h1 h'" for R1 h1
  proof -
    assume a1: "p < next_ref h1" and a2: "dom_to_dict_loop_st cs p R1 h1 = (res, h')"
    have "res = dom_to_dict c (cells h2 q) \<and> frame h2 h'"
      if "c \<in> set cs" "q < next_ref h2" "dom_to_dict_st c q h2 = (res, h')" for c q h2 res h'
      by (rule Cons.prems(3)[OF _ that(2,3)]) (simp add: that(1))
    from Cons.IH[OF a1 a2 this] show ?thesis .
  qed
  show ?case
  proof (cases child)
    case (Element tagName attrs ecs)
    let ?A = "attributes_of attrs"
    let ?path = "cells h p"
    define r1 where "r1 = (if ?A = [] then Inr R
            else dict_update R (nest (?path @ [''attributes'']) (dict_val ?A)))"
    define sub where "sub = sub_result (Element tagName attrs ecs) ?path"
    have "\<exists>h1. (if length ?A > 0
                 then merge_path_st R p ''attributes'' (dict_val ?A) h
                 else (Inr R, h)) = (r1, h1) \<and> frame h h1"
      using merge_path_st[of R p "''attributes''" "dict_val ?A" h] unfolding r1_def
      by (cases "?A = []") auto
    then obtain h1 where a: "(if length ?A > 0
                 then merge_path_st R p ''attributes'' (dict_val ?A) h
                 else (Inr R, h)) = (r1, h1)"
      and f1: "frame h h1" by blast
    have p1: "cells h1 p = ?path" "p < next_ref h1"
      using frame_cells[OF f1 Cons.prems(1)] by auto
    have "\<And>q h2 res h'. q < next_ref h2 \<Longrightarrow>
               dom_to_dict_st (Element tagName attrs ecs) q h2 = (res, h') \<Longrightarrow>
               res = dom_to_dict (Element tagName attrs ecs) (cells h2 q) \<and> frame h2 h'"
      using Cons.prems(3)[of child] Element by simp
    from sub_result_st[OF this, of p h1] obtain h3 where
      b: "(if tagName = ''rowset''
                then rowset_call_st (Element tagName attrs ecs) p attrs ?A h1
                else (case list_concat p [tagName] h1 of
                        (q, h2) \<Rightarrow> dom_to_dict_st (Element tagName attrs ecs) q h2)) = (sub, h3)"
      and f3: "frame h1 h3"
      unfolding p1(1) sub_def by blast
    have p3: "cells h3 p = ?path" "p < next_ref h3"
      using frame_cells[OF f3 p1(2)] p1(1) by auto
    have st: "dom_to_dict_loop_st (child # cs) p R h =
      (case r1 of
         Inl e \<Rightarrow> (Inl e, h1)
       | Inr result1 \<Rightarrow>
           (case sub of
              Inl e \<Rightarrow> (Inl e, h3)
            | Inr s \<Rightarrow>
                (case dict_update result1 s of
                   Inl e \<Rightarrow> (Inl e, h3)
                 | Inr result2 \<Rightarrow> dom_to_dict_loop_st cs p result2 h3)))"
      unfolding Element dom_to_dict_loop_st.simps node.case Let_def a prod.case
      by (cases r1) (simp_all only: sum.case b prod.case)
    have val: "dom_to_dict_loop (child # cs) ?path R =
      (case r1 of
         Inl e \<Rightarrow> Inl e
       | Inr result1 \<Rightarrow>
           (case sub of
              Inl e \<Rightarrow> Inl e
            | Inr s \<Rightarrow>
                (case dict_update result1 s of
                   Inl e \<Rightarrow> Inl e
                 | Inr result2 \<Rightarrow> dom_to_dict_loop cs ?path result2)))"
      unfolding Element loop_Element r1_def sub_def by simp
    have f13: "frame h h3" using f1 f3 frame_trans by blast
    show ?thesis
    proof (cases r1)
      case (Inl e)
      have "res = Inl e" "h' = h1" using Cons.prems(2) Inl unfolding st by simp_all
      then show ?thesis unfolding val using Inl f1 by simp
    next
      case (Inr result1)
      show ?thesis
      proof (cases sub)
        case (Inl e)
        have "res = Inl e" "h' = h3" using Cons.prems(2) Inr Inl unfolding st by simp_all
        then show ?thesis unfolding val using Inr Inl f13 by simp
      next
        case s: (Inr s)
        show ?thesis
        proof (cases "dict_update result1 s")
          case (Inl e)
          have "res = Inl e" "h' = h3" using Cons.prems(2) Inr s Inl unfolding st by simp_all
          then show ?thesis unfolding val using Inr s Inl f13 by simp
        next
          case r2: (Inr result2)
          have "dom_to_dict_loop_st cs p result2 h3 = (res, h')"
            using Cons.prems(2) Inr s r2 unfolding st by simp
          from rest[OF p3(2) this] show ?thesis
            unfolding val using Inr s r2 p3(1) f13 frame_trans by auto
        qed
      qed
    qed
  next
    case (Text s)
    show ?thesis
    proof (cases "strip s = []")
      case True
      then show ?thesis using Cons.prems(1,2) rest[of h R] Text by simp
    next
      case False
      define r1 where "r1 = dict_update R (nest (cells h p @ [''text'']) (Str (strip s)))"
      obtain h2 where a: "merge_path_st R p ''text'' (Str (strip s)) h = (r1, h2)"
        and f: "frame h h2"
        using merge_path_st[of R p "''text''" "Str (strip s)" h] unfolding r1_def by blast
      have p2: "cells h2 p = cells h p" "p < next_ref h2"
        using frame_cells[OF f Cons.prems(1)] by auto
      have st: "dom_to_dict_loop_st (child # cs) p R h =
        (case r1 of Inl e \<Rightarrow> (Inl e, h2) | Inr R' \<Rightarrow> dom_to_dict_loop_st cs p R' h2)"
        using a False unfolding Text by (simp add: Let_def split: sum.splits)
      have val: "dom_to_dict_loop (child # cs) (cells h p) R =
        (case r1 of Inl e \<Rightarrow> Inl e | Inr R' \<Rightarrow> dom_to_dict_loop cs (cells h p) R')"
        using False unfolding Text r1_def by simp
      show ?thesis
      proof (cases r1)
        case (Inl e)
        have "res = Inl e" "h' = h2" using Cons.prems(2) Inl unfolding st by simp_all
        then show ?thesis unfolding val using Inl f by simp
      next
        case (Inr R')
        have "dom_to_dict_loop_st cs p R' h2 = (res, h')"
          using Cons.prems(2) Inr unfolding st by simp
        from rest[OF p2(2) this] show ?thesis
          unfolding val using Inr p2(1) f frame_trans by auto
      qed
    qed
  next
    case (Document ds)
    then show ?thesis using Cons.prems(1,2) rest[of h R] by simp
  next
    case Other
    then show ?thesis using Cons.prems(1,2) rest[of h R] by simp
  qed
qed

lemma dom_to_dict_st_refines:
  "p < next_ref h \<Longrightarrow> dom_to_dict_st n p h = (res, h') \<Longrightarrow>
   res = dom_to_dict n (cells h p) \<and> frame h h'"
proof (induction n arbitrary: p h res h')
  case (Element tagName attrs cs)
  have l: "dom_to_dict_loop_st cs p (Dict []) h = (res, h')" using Element.prems(2) by simp
  have "res = dom_to_dict_loop cs (cells h p) (Dict []) \<and> frame h h'"
  proof (rule loop_st[OF _ Element.prems(1) l])
    fix c q h2 r2 h2'
    assume "c \<in> set cs" "q < next_ref h2" "dom_to_dict_st c q h2 = (r2, h2')"
    then show "r2 = dom_to_dict c (cells h2 q) \<and> frame h2 h2'" by (rule Element.IH)
  qed
  then show ?case by simp
next
  case (Text s)
  then show ?case by auto
next
  case (Document cs)
  have l: "dom_to_dict_loop_st cs p (Dict []) h = (res, h')" using Document.prems(2) by simp
  have "res = dom_to_dict_loop cs (cells h p) (Dict []) \<and> frame h h'"
  proof (rule loop_st[OF _ Document.prems(1) l])
    fix c q h2 r2 h2'
    assume "c \<in> set cs" "q < next_ref h2" "dom_to_dict_st c q h2 = (r2, h2')"
    then show "r2 = dom_to_dict c (cells h2 q) \<and> frame h2 h2'" by (rule Document.IH)
  qed
  then show ?case by simp
next
  case Other
  then show ?case by auto
qed

text \<open>
  C9. The conversion in the store returns what the function \<open>dom_to_dict\<close> of the tree and of
  the contents of the path object returns, and leaves the path object, like every list
  allocated before the call, as it was. So two successive conversions of the same tree with
  the same path object (the shared default, for example) return equal results.
\<close>

theorem dom_to_dict_deterministic:
  assumes "p < next_ref h" "dom_to_dict_st n p h = (r1, h1)" "dom_to_dict_st n p h1 = (r2, h2)"
  shows "r1 = r2 \<and> r1 = dom_to_dict n (cells h p) \<and> cells h1 p = cells h p \<and> cells h2 p = cells h p"
proof -
  from dom_to_dict_st_refines[OF assms(1,2)]
  have a: "r1 = dom_to_dict n (cells h p)" "frame h h1" by auto
  have p1: "cells h1 p = cells h p" "p < next_ref h1"
    using frame_cells[OF a(2) assms(1)] by auto
  from dom_to_dict_st_refines[OF p1(2) assms(3)]
  have b: "r2 = dom_to_dict n (cells h1 p)" "frame h1 h2" by auto
  have "cells h2 p = cells h1 p" using frame_cells[OF b(2) p1(2)] by simp
  then show ?thesis using a b p1 by simp
qed

theorem dom_to_dict_deterministic_witness:
  "(0::nat) < next_ref fresh_store \<and>
   fst (dom_to_dict_st server_status_doc 0 fresh_store) = Inr server_status_dict \<and>
   fst (dom_to_dict_st server_status_doc 0 (snd (dom_to_dict_st server_status_doc 0 fresh_store))) =
     Inr server_status_dict \<and>
   cells (snd (dom_to_dict_st server_status_doc 0 fresh_store)) 0 = []"
proof -
  let ?first = "dom_to_dict_st server_status_doc 0 fresh_store"
  let ?second = "dom_to_dict_st server_status_doc 0 (snd ?first)"
  have pos: "(0::nat) < next_ref fresh_store" by (simp add: fresh_store_def)
  have empty: "cells fresh_store 0 = []" by (simp add: fresh_store_def)
  from dom_to_dict_deterministic[OF pos prod.collapse[symmetric] prod.collapse[symmetric]]
  have d: "fst ?first = fst ?second"
    "fst ?first = dom_to_dict server_status_doc (cells fresh_store 0)"
    "cells (snd ?first) 0 = cells fresh_store 0"
    by blast+
  have a: "fst ?first = Inr server_status_dict"
    using d(2) server_status_conversion by (simp add: empty)
  have b: "fst ?second = Inr server_status_dict"
    using d(1) a by simp
  show ?thesis using pos a b d(3) empty by simp
qed

section \<open>What a deep merge touches\<close>

lemma reach_least: "closed_under h S \<Longrightarrow> refs v \<subseteq> S \<Longrightarrow> reach h v \<subseteq> S"
proof
  fix a
  assume c: "closed_under h S" and r: "refs v \<subseteq> S" and "a \<in> reach h v"
  from this(3) show "a \<in> S"
  proof (induction rule: reach.induct)
    case (root a)
    then show ?case using r by auto
  next
    case (step a k b)
    then show ?case using c unfolding closed_under_def by blast
  qed
qed

lemma closed_under_reach: "closed_under h (reach h v)"
  unfolding closed_under_def by (blast intro: reach.step)

lemma refs_reach: "refs v \<subseteq> reach h v"
  by (cases v) (auto intro: reach.root)

lemma reach_agree:
  assumes "\<forall>a \<in> reach h v. dicts h' a = dicts h a"
  shows "reach h' v = reach h v"
proof
  have "closed_under h' (reach h v)"
    unfolding closed_under_def using assms by (auto intro: reach.step)
  then show "reach h' v \<subseteq> reach h v" using reach_least refs_reach by blast
  show "reach h v \<subseteq> reach h' v"
  proof
    fix a
    assume "a \<in> reach h v"
    then show "a \<in> reach h' v"
    proof (induction rule: reach.induct)
      case (root a)
      then show ?case by (rule reach.root)
    next
      case (step a k b)
      then have "(k, HRef b) \<in> set (dicts h' a)" using assms by simp
      with step.IH show ?case by (rule reach.step)
    qed
  qed
qed

lemma extends_refl: "closed_under h S \<Longrightarrow> extends h S h"
  by (simp add: extends_def)

lemma extends_trans:
  assumes "extends h S h1" "extends h1 (S \<union> {next_dict h ..< next_dict h1}) h2"
  shows "extends h S h2"
proof -
  have n: "next_dict h \<le> next_dict h1" "next_dict h1 \<le> next_dict h2"
    using assms by (auto simp: extends_def)
  then have u: "S \<union> {next_dict h ..< next_dict h1} \<union> {next_dict h1 ..< next_dict h2} =
      S \<union> {next_dict h ..< next_dict h2}" by auto
  have "closed_under h2 (S \<union> {next_dict h ..< next_dict h2})"
    using assms(2) unfolding extends_def u by simp
  moreover have "dicts h2 a = dicts h a" if "a \<notin> S" "a < next_dict h" for a
  proof -
    have "dicts h1 a = dicts h a" using assms(1) that by (simp add: extends_def)
    moreover have "dicts h2 a = dicts h1 a" using assms(2) that n by (simp add: extends_def)
    ultimately show ?thesis by simp
  qed
  ultimately show ?thesis using n by (simp add: extends_def)
qed

lemma extends_closed: "extends h S h' \<Longrightarrow> closed_under h' (S \<union> {next_dict h ..< next_dict h'})"
  by (simp add: extends_def)

lemma extends_new_dict:
  assumes "closed_under h S" "new_dict h = (e, h1)"
  shows "extends h S h1" "e = next_dict h" "next_dict h1 = Suc (next_dict h)" "dicts h1 e = []"
    "\<forall>a. a \<noteq> e \<longrightarrow> dicts h1 a = dicts h a"
proof -
  have h1: "e = next_dict h" "next_dict h1 = Suc (next_dict h)" "dicts h1 e = []"
    "\<forall>a. a \<noteq> e \<longrightarrow> dicts h1 a = dicts h a"
    using assms(2) by (auto simp: new_dict_def)
  then show "e = next_dict h" "next_dict h1 = Suc (next_dict h)" "dicts h1 e = []"
    "\<forall>a. a \<noteq> e \<longrightarrow> dicts h1 a = dicts h a" by auto
  have "closed_under h1 (S \<union> {next_dict h ..< next_dict h1})"
    unfolding closed_under_def
  proof (intro ballI allI impI)
    fix a k b
    assume a: "a \<in> S \<union> {next_dict h ..< next_dict h1}" and edge: "(k, HRef b) \<in> set (dicts h1 a)"
    have "a \<noteq> e" using edge h1(3) by auto
    then have "a \<in> S" "(k, HRef b) \<in> set (dicts h a)" using a edge h1 by auto
    then show "b \<in> S \<union> {next_dict h ..< next_dict h1}"
      using assms(1) unfolding closed_under_def by blast
  qed
  then show "extends h S h1" using h1 by (auto simp: extends_def)
qed

lemma extends_set_item:
  assumes "closed_under h S" "a1 \<in> S" "refs w \<subseteq> S"
  shows "extends h S (set_item a1 k w h)"
proof -
  let ?h = "set_item a1 k w h"
  have same: "next_dict ?h = next_dict h" "\<forall>a. a \<noteq> a1 \<longrightarrow> dicts ?h a = dicts h a"
    "dicts ?h a1 = dict_set (dicts h a1) k w"
    by (auto simp: set_item_def)
  have "closed_under ?h S"
    unfolding closed_under_def
  proof (intro ballI allI impI)
    fix a k' b
    assume a: "a \<in> S" and edge: "(k', HRef b) \<in> set (dicts ?h a)"
    show "b \<in> S"
    proof (cases "a = a1")
      case True
      then have "(k', HRef b) \<in> insert (k, w) (set (dicts h a1))"
        using edge same(3) set_dict_set[of "dicts h a1" k w] by auto
      then show ?thesis using assms unfolding closed_under_def by (cases w) auto
    next
      case False
      then show ?thesis using a edge same(2) assms(1) unfolding closed_under_def by auto
    qed
  qed
  then show ?thesis using same assms(2) by (auto simp: extends_def)
qed

lemma extends_next: "extends h S h' \<Longrightarrow> next_dict h \<le> next_dict h'"
  by (simp add: extends_def)

lemma extends_trans':
  assumes "extends h S h1" "S1 = S \<union> {next_dict h ..< next_dict h1}" "extends h1 S1 h2"
  shows "extends h S h2" "S1 \<union> {next_dict h1 ..< next_dict h2} = S \<union> {next_dict h ..< next_dict h2}"
proof -
  show "extends h S h2" using extends_trans assms by simp
  have "next_dict h \<le> next_dict h1" "next_dict h1 \<le> next_dict h2"
    using assms extends_next by auto
  then show "S1 \<union> {next_dict h1 ..< next_dict h2} = S \<union> {next_dict h ..< next_dict h2}"
    unfolding assms(2) by auto
qed

lemma refs_dict_get:
  assumes "closed_under h S" "a1 \<in> S" "e \<in> S"
  shows "refs (dict_get (dicts h a1) k (HRef e)) \<subseteq> S"
proof (cases "map_of (dicts h a1) k")
  case None
  then show ?thesis using assms(3) by (simp add: dict_get_def)
next
  case (Some x)
  then have "(k, x) \<in> set (dicts h a1)" by (rule map_of_SomeD)
  then show ?thesis using assms(1,2) Some unfolding closed_under_def dict_get_def
    by (cases x) auto
qed

lemma items_loop_good:
  assumes g: "frame_safe call"
  shows "closed_under h S \<Longrightarrow> refs dict1 \<subseteq> S \<Longrightarrow>
         items_loop call dict1 a2 n0 ixs h = (res, h') \<Longrightarrow>
         extends h S h' \<and> (\<forall>r. res = Inr r \<longrightarrow> r = dict1)"
proof (induction ixs arbitrary: h S)
  case Nil
  then show ?case by (auto simp: extends_refl split: if_splits)
next
  case (Cons i rest)
  show ?case
  proof (cases "length (dicts h a2) \<noteq> n0")
    case True
    then show ?thesis using Cons.prems by (auto simp: extends_refl)
  next
    case False
    obtain k v where kv: "dicts h a2 ! i = (k, v)" by (cases "dicts h a2 ! i")
    show ?thesis
    proof (cases dict1)
      case (HStr s1)
      then show ?thesis using Cons.prems False kv by (cases v) (auto simp: extends_refl)
    next
      case (HRef a1)
      then have a1: "a1 \<in> S" using Cons.prems(2) by simp
      show ?thesis
      proof (cases v)
        case (HStr s)
        let ?h3 = "set_item a1 k (HStr s) h"
        have run: "items_loop call dict1 a2 n0 rest ?h3 = (res, h')"
          using Cons.prems(3) False kv HRef HStr by simp
        have e3: "extends h S ?h3" using extends_set_item[OF Cons.prems(1) a1, of "HStr s" k] by simp
        define S3 where "S3 = S \<union> {next_dict h ..< next_dict ?h3}"
        have c3: "closed_under ?h3 S3" using extends_closed[OF e3] by (simp add: S3_def)
        have r3: "refs dict1 \<subseteq> S3" using Cons.prems(2) by (auto simp: S3_def)
        from Cons.IH[OF c3 r3 run] extends_trans'(1)[OF e3 S3_def]
        show ?thesis by blast
      next
        case av: (HRef av)
        obtain e h1 where nd: "new_dict h = (e, h1)" by (cases "new_dict h")
        note n1 = extends_new_dict[OF Cons.prems(1) nd]
        define S1 where "S1 = S \<union> {next_dict h ..< next_dict h1}"
        have c1: "closed_under h1 S1" using extends_closed[OF n1(1)] by (simp add: S1_def)
        have eS1: "e \<in> S1" "a1 \<in> S1" using n1(2,3) a1 by (auto simp: S1_def)
        define d where "d = dict_get (dicts h1 a1) k (HRef e)"
        have rd: "refs d \<subseteq> S1" unfolding d_def using refs_dict_get[OF c1 eS1(2,1)] .
        obtain res2 h2 where call: "call d v h1 = (res2, h2)" by (cases "call d v h1")
        from g c1 rd call have e2: "extends h1 S1 h2" and r2: "\<forall>r. res2 = Inr r \<longrightarrow> r = d"
          unfolding frame_safe_def by blast+
        note t2 = extends_trans'[OF n1(1) S1_def e2]
        show ?thesis
        proof (cases res2)
          case (Inl err)
          then have "res = Inl err" "h' = h2"
            using Cons.prems(3) False kv HRef av nd call d_def by simp_all
          then show ?thesis using t2(1) by simp
        next
          case (Inr r)
          then have r: "r = d" using r2 by simp
          let ?h3 = "set_item a1 k d h2"
          have run: "items_loop call dict1 a2 n0 rest ?h3 = (res, h')"
            using Cons.prems(3) False kv HRef av nd call d_def Inr r by simp
          define S2 where "S2 = S \<union> {next_dict h ..< next_dict h2}"
          have c2: "closed_under h2 S2" using extends_closed[OF t2(1)] by (simp add: S2_def)
          have sub: "S1 \<subseteq> S2" using t2(2) by (auto simp: S2_def)
          have e3: "extends h2 S2 ?h3"
            using extends_set_item[OF c2, of a1 d k] eS1(2) rd sub by auto
          have t3: "extends h S ?h3" using extends_trans[OF t2(1)] e3 by (simp add: S2_def)
          define S3 where "S3 = S \<union> {next_dict h ..< next_dict ?h3}"
          have c3: "closed_under ?h3 S3" using extends_closed[OF t3] by (simp add: S3_def)
          have r3: "refs dict1 \<subseteq> S3" using Cons.prems(2) by (auto simp: S3_def)
          from Cons.IH[OF c3 r3 run] extends_trans'(1)[OF t3 S3_def]
          show ?thesis by blast
        qed
      qed
    qed
  qed
qed

lemma dict_update_h_good: "frame_safe (dict_update_h depth)"
proof (induction depth)
  case 0
  then show ?case by (auto simp: frame_safe_def extends_refl)
next
  case (Suc depth)
  show ?case
    unfolding frame_safe_def
  proof (intro allI impI)
    fix dict1 dict2 h S res h'
    assume a: "closed_under h S \<and> refs dict1 \<subseteq> S \<and> dict_update_h (Suc depth) dict1 dict2 h = (res, h')"
    show "extends h S h' \<and> (\<forall>r. res = Inr r \<longrightarrow> r = dict1)"
    proof (cases dict2)
      case (HStr s)
      then show ?thesis using a by (auto simp: extends_refl)
    next
      case (HRef a2)
      then have "items_loop (dict_update_h depth) dict1 a2 (length (dicts h a2))
              [0..<length (dicts h a2)] h = (res, h')" using a by simp
      from items_loop_good[OF Suc _ _ this] a show ?thesis by blast
    qed
  qed
qed

text \<open>
  C10, as the code has it. When no dictionary object is reachable from both \<open>dict1\<close> and
  \<open>dict2\<close> (and the objects of \<open>dict2\<close> are allocated), a call of the deep merge, whether it
  returns or raises, leaves every dictionary reachable from \<open>dict2\<close> as it was; when it
  returns, it returns the object \<open>dict1\<close> itself, and no dictionary reachable from \<open>dict2\<close> is
  reachable from the result.
\<close>

theorem dict_update_h_frame:
  assumes "reach h dict1 \<inter> reach h dict2 = {}"
    and "reach h dict2 \<subseteq> {a. a < next_dict h}"
    and "dict_update_h depth dict1 dict2 h = (res, h')"
  shows "(\<forall>a \<in> reach h dict2. dicts h' a = dicts h a) \<and>
         reach h' dict2 = reach h dict2 \<and>
         (\<forall>r. res = Inr r \<longrightarrow> r = dict1 \<and> reach h' r \<inter> reach h' dict2 = {})"
proof -
  let ?S = "reach h dict1"
  from dict_update_h_good[of depth] closed_under_reach[of h dict1] refs_reach[of dict1 h] assms(3)
  have e: "extends h ?S h'" and r: "\<forall>r. res = Inr r \<longrightarrow> r = dict1"
    unfolding frame_safe_def by blast+
  have same: "\<forall>a \<in> reach h dict2. dicts h' a = dicts h a"
    using e assms(1,2) unfolding extends_def by blast
  then have eq: "reach h' dict2 = reach h dict2" by (rule reach_agree)
  have "reach h' dict1 \<subseteq> ?S \<union> {next_dict h ..< next_dict h'}"
    using reach_least[OF extends_closed[OF e]] refs_reach[of dict1 h] by blast
  then have "reach h' dict1 \<inter> reach h dict2 = {}"
    using assms(1,2) by (fastforce simp: disjoint_iff subset_eq)
  then show ?thesis using same eq r by auto
qed

theorem dict_update_h_frame_witness:
  "reach sep_heap (HRef 0) \<inter> reach sep_heap (HRef 1) = {} \<and>
   reach sep_heap (HRef 1) \<subseteq> {a. a < next_dict sep_heap} \<and>
   fst (dict_update_h 3 (HRef 0) (HRef 1) sep_heap) = Inr (HRef 0) \<and>
   dicts (snd (dict_update_h 3 (HRef 0) (HRef 1) sep_heap)) 0 =
     [(''a'', HRef 2), (''b'', HStr ''y'')] \<and>
   dicts (snd (dict_update_h 3 (HRef 0) (HRef 1) sep_heap)) 1 =
     [(''a'', HRef 3), (''b'', HStr ''y'')] \<and>
   dicts (snd (dict_update_h 3 (HRef 0) (HRef 1) sep_heap)) 3 = [(''x'', HStr ''1'')]"
proof -
  let ?run = "dict_update_h 3 (HRef 0) (HRef 1) sep_heap"
  have "closed_under sep_heap {0, 2}" "closed_under sep_heap {1, 3}"
    by (simp_all add: closed_under_def sep_heap_def)
  then have r0: "reach sep_heap (HRef 0) \<subseteq> {0, 2}" and r1: "reach sep_heap (HRef 1) \<subseteq> {1, 3}"
    by (simp_all add: reach_least)
  have "{0, 2} \<inter> {1, 3 :: nat} = {}" by simp
  then have h1: "reach sep_heap (HRef 0) \<inter> reach sep_heap (HRef 1) = {}" using r0 r1 by blast
  have h2: "reach sep_heap (HRef 1) \<subseteq> {a. a < next_dict sep_heap}"
    using r1 by (auto simp: sep_heap_def)
  have in1: "1 \<in> reach sep_heap (HRef 1)" by (simp add: reach.root)
  have "(''a'', HRef 3) \<in> set (dicts sep_heap 1)" by (simp add: sep_heap_def)
  with in1 have in3: "3 \<in> reach sep_heap (HRef 1)" by (rule reach.step)
  from dict_update_h_frame[OF h1 h2 prod.collapse[symmetric]]
  have "\<forall>a \<in> reach sep_heap (HRef 1). dicts (snd ?run) a = dicts sep_heap a" by blast
  then have "dicts (snd ?run) 1 = dicts sep_heap 1" "dicts (snd ?run) 3 = dicts sep_heap 3"
    using in1 in3 by blast+
  then have same: "dicts (snd ?run) 1 = [(''a'', HRef 3), (''b'', HStr ''y'')]"
    "dicts (snd ?run) 3 = [(''x'', HStr ''1'')]"
    by (simp_all add: sep_heap_def)
  have ret: "fst ?run = Inr (HRef 0)"
    by (simp add: sep_heap_def new_dict_def set_item_def dict_get_def upt_rec numeral_3_eq_3)
  have dst: "dicts (snd ?run) 0 = [(''a'', HRef 2), (''b'', HStr ''y'')]"
    by (simp add: sep_heap_def new_dict_def set_item_def dict_get_def upt_rec numeral_3_eq_3)
  show ?thesis using h1 h2 ret dst same by simp
qed

text \<open>
  With the shared dictionary the call returns and has changed the source: the object 2,
  which the source holds at \<open>b\<close>, was empty and now holds \<open>x\<close>.
\<close>

theorem dict_update_h_alias_counterexample:
  "fst (dict_update_h 3 (HRef 0) (HRef 1) alias_heap) = Inr (HRef 0) \<and>
   2 \<in> reach alias_heap (HRef 1) \<and>
   dicts alias_heap 2 = [] \<and>
   dicts (snd (dict_update_h 3 (HRef 0) (HRef 1) alias_heap)) 2 = [(''x'', HStr ''1'')]"
proof -
  have "1 \<in> reach alias_heap (HRef 1)" by (simp add: reach.root)
  moreover have "(''b'', HRef 2) \<in> set (dicts alias_heap 1)" by (simp add: alias_heap_def)
  ultimately have "2 \<in> reach alias_heap (HRef 1)" by (rule reach.step)
  then show ?thesis
    by (simp add: alias_heap_def new_dict_def set_item_def dict_get_def upt_rec numeral_3_eq_3)
qed

end
